theory Spec2Isabelle
  imports Main
begin

text \<open>
  A model of the pending-transaction discovery service and proofs about it.  The first
  part holds the definitions, each translated from the TypeScript function whose name it
  keeps: the normalizers, the semaphore, the ledger client's page-count query, the
  signing-path explorer, the three discovery phases, the inbox reconciler and the polling
  supervisor.  The second part holds the properties, one section per component.
\<close>

section \<open>Strings as the service's utilities see them\<close>

text \<open>
  A JavaScript string is modelled as a \<open>string\<close> whose characters are code units
  below 256 (the Latin-1 range).  On that range \<open>String.prototype.trim\<close> removes
  the code units 9 to 13, 32 and 160, and \<open>toLowerCase\<close> adds 32 to the letters
  65 to 90 and 192 to 222 (215, the multiplication sign, excepted).
\<close>

definition isWhiteSpace :: "char \<Rightarrow> bool" where
  "isWhiteSpace c = (of_char c \<in> {9, 10, 11, 12, 13, 32, 160 :: nat})"

definition toLowerChar :: "char \<Rightarrow> char" where
  "toLowerChar c =
     (let n = of_char c :: nat
      in if (65 \<le> n \<and> n \<le> 90) \<or> (192 \<le> n \<and> n \<le> 222 \<and> n \<noteq> 215)
         then char_of (n + 32) else c)"

definition toLowerCase :: "string \<Rightarrow> string" where
  "toLowerCase s = map toLowerChar s"

definition trimStart :: "string \<Rightarrow> string" where
  "trimStart s = dropWhile isWhiteSpace s"

definition trimEnd :: "string \<Rightarrow> string" where
  "trimEnd s = rev (dropWhile isWhiteSpace (rev s))"

definition trim :: "string \<Rightarrow> string" where
  "trim s = trimEnd (trimStart s)"

definition startsWith :: "string \<Rightarrow> string \<Rightarrow> bool" where
  "startsWith s p = (take (length p) s = p)"

definition endsWith :: "string \<Rightarrow> string \<Rightarrow> bool" where
  "endsWith s p = (length p \<le> length s \<and> drop (length s - length p) s = p)"

text \<open>\<open>indexOf\<close> answers \<open>-1\<close> when the character does not occur.\<close>

definition indexOf :: "string \<Rightarrow> char \<Rightarrow> int" where
  "indexOf s c = (if c \<in> set s then int (length (takeWhile (\<lambda>x. x \<noteq> c) s)) else - 1)"

text \<open>\<open>s.substring(n)\<close> and \<open>s.substring(0, i)\<close> for \<open>i > 0\<close>.\<close>

definition substring :: "string \<Rightarrow> nat \<Rightarrow> string" where
  "substring s n = drop n s"

definition substringTo :: "string \<Rightarrow> int \<Rightarrow> string" where
  "substringTo s i = take (nat i) s"

subsection \<open>Hash normalizer (utils/hash-normalizer.ts)\<close>

definition normalizeHash :: "string \<Rightarrow> string" where
  "normalizeHash hash =
     (if hash = [] then []
      else
        let n0 = toLowerCase (trim hash);
            n1 = (if startsWith n0 ''0x'' then substring n0 2 else n0);
            n2 = (if startsWith n1 ''acc://'' then substring n1 6 else n1);
            atIndex = indexOf n2 CHR ''@'';
            n3 = (if atIndex > 0 then substringTo n2 atIndex else n2);
            slashIndex = indexOf n3 CHR ''/'';
            n4 = (if slashIndex > 0 then substringTo n3 slashIndex else n3)
        in trim n4)"

definition normalizePublicKeyHash :: "string \<Rightarrow> string" where
  "normalizePublicKeyHash hash = normalizeHash hash"

text \<open>
  The reference definition of the specification, word for word: trim, lowercase, strip a
  leading \<open>0x\<close>, strip a leading \<open>acc://\<close>, then truncate at the first \<open>@\<close> or
  \<open>/\<close>.  \<open>stripHashPrefixes\<close> is the part before the truncation.
\<close>

definition stripHashPrefixes :: "string \<Rightarrow> string" where
  "stripHashPrefixes x =
     (let s0 = toLowerCase (trim x);
          s1 = (if startsWith s0 ''0x'' then drop 2 s0 else s0)
      in if startsWith s1 ''acc://'' then drop 6 s1 else s1)"

definition normalizeHash_spec :: "string \<Rightarrow> string" where
  "normalizeHash_spec x =
     takeWhile (\<lambda>c. c \<noteq> CHR ''@'' \<and> c \<noteq> CHR ''/'') (stripHashPrefixes x)"

subsection \<open>URL normalizer (utils/url-normalizer.ts)\<close>

definition normalizeUrl :: "string \<Rightarrow> string" where
  "normalizeUrl url =
     (if url = [] then []
      else
        let n0 = trim (toLowerCase url);
            n1 = (if \<not> startsWith n0 ''acc://''
                  then (if startsWith n0 ''acc:'' then ''acc://'' @ substring n0 4
                        else ''acc://'' @ n0)
                  else n0);
            n2 = (if endsWith n1 ''/'' then butlast n1 else n1)
        in n2)"

subsection \<open>Predicates used to state and prove the normalizer properties\<close>

definition lowered :: "string \<Rightarrow> bool" where
  "lowered s = (\<forall>c \<in> set s. toLowerChar c = c)"

definition trimmed :: "string \<Rightarrow> bool" where
  "trimmed s = (s = [] \<or> (\<not> isWhiteSpace (hd s) \<and> \<not> isWhiteSpace (last s)))"

definition cutAt :: "string \<Rightarrow> char \<Rightarrow> string" where
  "cutAt s c = (if indexOf s c > 0 then substringTo s (indexOf s c) else s)"

definition atHeadOnly :: "char \<Rightarrow> string \<Rightarrow> bool" where
  "atHeadOnly c s = (c \<in> set s \<longrightarrow> hd s = c)"

definition endsWithWhiteSpace :: "string \<Rightarrow> bool" where
  "endsWithWhiteSpace s = (s \<noteq> [] \<and> isWhiteSpace (last s))"

section \<open>Semaphore (utils/retry.ts)\<close>

text \<open>
  The counter holds an integer (the poller passes \<open>parseInt\<close> of the configured
  concurrency).  A parked caller is the \<open>resolve\<close> callback that \<open>acquire\<close> pushed on
  the queue; the type \<open>'w\<close> names the callers.  Both methods run to completion without
  yielding, so each is one step on the state.
\<close>

record 'w Semaphore =
  permits :: int
  waiting :: "'w list"

definition newSemaphore :: "int \<Rightarrow> 'w Semaphore" where
  "newSemaphore n = \<lparr>permits = n, waiting = []\<rparr>"

text \<open>
  \<open>acquire w s\<close>: the flag says whether the caller went on at once (\<open>True\<close>) or was
  parked (\<open>False\<close>).
\<close>

definition acquire :: "'w \<Rightarrow> 'w Semaphore \<Rightarrow> bool \<times> 'w Semaphore" where
  "acquire w s =
     (if permits s > 0 then (True, s\<lparr>permits := permits s - 1\<rparr>)
      else (False, s\<lparr>waiting := waiting s @ [w]\<rparr>))"

text \<open>\<open>release s\<close>: the caller that was woken, if any, and the new state.\<close>

definition release :: "'w Semaphore \<Rightarrow> 'w option \<times> 'w Semaphore" where
  "release s =
     (let s1 = s\<lparr>permits := permits s + 1\<rparr>
      in if length (waiting s1) > 0 \<and> permits s1 > 0
         then (case waiting s1 of
                 next # rest \<Rightarrow> (Some next, s1\<lparr>permits := permits s1 - 1, waiting := rest\<rparr>)
               | [] \<Rightarrow> (None, s1\<lparr>permits := permits s1 - 1\<rparr>))
         else (None, s1))"

datatype 'w semOp = Acquire 'w | Release

fun semStep :: "'w semOp \<Rightarrow> 'w Semaphore \<Rightarrow> 'w Semaphore" where
  "semStep (Acquire w) s = snd (acquire w s)"
| "semStep Release s = snd (release s)"

definition semRun :: "'w semOp list \<Rightarrow> 'w Semaphore \<Rightarrow> 'w Semaphore" where
  "semRun ops s = fold semStep ops s"

definition semInv :: "'w Semaphore \<Rightarrow> bool" where
  "semInv s = (0 \<le> permits s \<and> (waiting s \<noteq> [] \<longrightarrow> permits s = 0))"

text \<open>The callers a release wakes, as a list: empty or one caller.\<close>

definition woken :: "'w Semaphore \<Rightarrow> 'w list" where
  "woken s = (case fst (release s) of None \<Rightarrow> [] | Some w \<Rightarrow> [w])"

section \<open>JSON values as the client reads them\<close>

text \<open>
  The result of a JSON-RPC call is an untyped value.  \<open>JUndefined\<close> is what reading a
  missing property gives; it does not occur inside a parsed response.  Numbers are
  taken to be integers.  An object is its list of members in source order; a later
  member of the same name wins, as in \<open>JSON.parse\<close>.
\<close>

datatype json =
    JUndefined
  | JNull
  | JBool bool
  | JNum int
  | JStr string
  | JArr "json list"
  | JObj "(string \<times> json) list"

text \<open>
  \<open>getProp v k\<close> is \<open>v.k\<close> for the member names the service reads (none of them is
  inherited from a prototype): \<open>None\<close> is the \<open>TypeError\<close> of reading a property of
  \<open>null\<close> or \<open>undefined\<close>.
\<close>

fun getProp :: "json \<Rightarrow> string \<Rightarrow> json option" where
  "getProp JUndefined k = None"
| "getProp JNull k = None"
| "getProp (JObj kvs) k =
     Some (case map_of (rev kvs) k of None \<Rightarrow> JUndefined | Some v \<Rightarrow> v)"
| "getProp v k = Some JUndefined"

text \<open>\<open>optProp v k\<close> is \<open>v?.k\<close>.\<close>

fun optProp :: "json \<Rightarrow> string \<Rightarrow> json" where
  "optProp v k = (case getProp v k of None \<Rightarrow> JUndefined | Some x \<Rightarrow> x)"

fun isNumber :: "json \<Rightarrow> bool" where
  "isNumber (JNum n) = True"
| "isNumber v = False"

fun numberOf :: "json \<Rightarrow> int" where
  "numberOf (JNum n) = n"
| "numberOf v = 0"

subsection \<open>AccumulateClient.queryKeyBookPageCount (clients/accumulate.client.ts)\<close>

text \<open>
  \<open>rpc scope\<close> is the outcome of \<open>call('query', {scope})\<close> once the retries are over:
  \<open>Inl\<close> a thrown error, \<open>Inr\<close> the result.  The \<open>try\<close> block also catches the
  \<open>TypeError\<close> of reading a member of a null result.
\<close>

datatype rpcError = RpcError string

definition queryKeyBookPageCount :: "(string \<Rightarrow> rpcError + json) \<Rightarrow> string \<Rightarrow> int" where
  "queryKeyBookPageCount rpc keyBookUrl =
     (case rpc (normalizeUrl keyBookUrl) of
        Inl e \<Rightarrow> 0
      | Inr response \<Rightarrow>
          (case getProp response ''account'' of
             None \<Rightarrow> 0
           | Some account \<Rightarrow>
               (case getProp response ''data'' of
                  None \<Rightarrow> 0
                | Some data \<Rightarrow>
                    if optProp account ''type'' = JStr ''keyBook''
                       \<and> isNumber (optProp account ''pageCount'')
                    then numberOf (optProp account ''pageCount'')
                    else if optProp data ''type'' = JStr ''keyBook''
                       \<and> isNumber (optProp data ''pageCount'')
                    then numberOf (optProp data ''pageCount'')
                    else if isNumber (optProp response ''pageCount'')
                    then numberOf (optProp response ''pageCount'')
                    else 0)))"

section \<open>Data model (types/firestore.types.ts, types/accumulate.types.ts)\<close>

text \<open>
  Records keep the fields the discovery code reads.  An optional string field is an
  \<open>option\<close>; JavaScript's truth test on it (\<open>entry.delegateUrl\<close>, \<open>k.delegate\<close>) holds
  for a present, non-empty string.
\<close>

fun truthyStr :: "string option \<Rightarrow> bool" where
  "truthyStr None = False"
| "truthyStr (Some s) = (s \<noteq> [])"

datatype keyEntryKind = KeyEntry | DelegateEntry

record CertenKeyEntry =
  entryType :: keyEntryKind
  entryPublicKeyHash :: "string option"
  entryKeyType :: "string option"
  entryDelegateUrl :: "string option"

record CertenKeyPage =
  pageUrl :: string
  pageVersion :: int
  pageThreshold :: int
  pageCreditBalance :: int
  pageEntries :: "CertenKeyEntry list"

record CertenKeyBook =
  bookUrl :: string
  bookKeyPages :: "CertenKeyPage list"

record CertenAdiAccount =
  accountUrl :: string
  accountType :: string

record CertenAdi =
  adiUrl :: string
  keyBooks :: "CertenKeyBook list"
  accounts :: "CertenAdiAccount list"

record CertenUserWithAdis =
  uid :: string
  adis :: "CertenAdi list"

record AccumulateKeyEntry =
  publicKeyHash :: string
  delegate :: "string option"
  keyType :: "string option"

record AccumulateKeyPage =
  akpUrl :: string
  akpVersion :: int
  akpThreshold :: int
  akpCreditBalance :: int
  keys :: "AccumulateKeyEntry list"

datatype vote = Approve | Reject | Abstain

text \<open>Times are milliseconds since the epoch.\<close>

record AccumulateSignature =
  signer :: string
  sigPublicKeyHash :: string
  signature :: string
  timestamp :: "int option"
  vote :: "vote option"

record AccumulatePendingTx =
  txId :: string
  hash :: string
  principal :: string
  txType :: string
  txStatus :: string
  signatures :: "AccumulateSignature list"
  expiresAt :: "int option"

record SigningPath =
  path :: string
  hops :: "string list"
  finalSigner :: string

datatype category = InitiatedByUser | RequiringSignature

record EligibleTransaction =
  tx :: AccumulatePendingTx
  eligiblePaths :: "string list"
  category :: category

subsection \<open>The ledger as one cycle sees it\<close>

text \<open>
  One field per method of \<open>AccumulateClient\<close> that the services call: what the method
  returns for an argument.  Every one of these methods catches the errors of its RPC and
  answers with a fallback value, so none of them throws.  The ledger is a snapshot: the
  same question gets the same answer within the cycle.
\<close>

record Ledger =
  accountExists :: "string \<Rightarrow> bool"
  queryKeyPage :: "string \<Rightarrow> AccumulateKeyPage option"
  keyBookPageCount :: "string \<Rightarrow> int"
  queryDirectory :: "string \<Rightarrow> string list"
  queryPending :: "string \<Rightarrow> int \<Rightarrow> AccumulatePendingTx list"
  querySignatureChain :: "string \<Rightarrow> int \<Rightarrow> int \<Rightarrow> bool \<Rightarrow> json list \<times> int"
  queryTransactionRaw :: "string \<Rightarrow> json option"
  queryTransaction :: "string \<Rightarrow> AccumulatePendingTx option"

section \<open>Signing-path explorer (services/signing-path.service.ts)\<close>

text \<open>\<open>newPath.join(' -> ')\<close>.\<close>

fun joinArrow :: "string list \<Rightarrow> string" where
  "joinArrow [] = []"
| "joinArrow [x] = x"
| "joinArrow (x # y # ys) = x @ '' -> '' @ joinArrow (y # ys)"

definition extractDelegates :: "CertenKeyPage \<Rightarrow> string list" where
  "extractDelegates keyPage =
     map (\<lambda>entry. normalizeUrl (the (entryDelegateUrl entry)))
       (filter (\<lambda>entry. entryType entry = DelegateEntry \<and> truthyStr (entryDelegateUrl entry))
          (pageEntries keyPage))"

text \<open>\<open>keyPageData.keys.filter(k => k.delegate).map(k => normalizeUrl(k.delegate!))\<close>.\<close>

definition newDelegates :: "AccumulateKeyPage \<Rightarrow> string list" where
  "newDelegates keyPageData =
     map (\<lambda>k. normalizeUrl (the (delegate k)))
       (filter (\<lambda>k. truthyStr (delegate k)) (keys keyPageData))"

definition mkSigningPath :: "string list \<Rightarrow> string \<Rightarrow> SigningPath" where
  "mkSigningPath newPath target =
     \<lparr>path = joinArrow newPath, hops = newPath, finalSigner = target\<rparr>"

text \<open>
  \<open>followDelegationChain\<close>.  The mutable \<open>visited\<close> set and \<open>results\<close> array are the
  state that is passed in and returned.  \<open>maxDepth\<close> is the configured integer
  \<open>delegationDepth\<close>; \<open>depth\<close> counts from 1.
\<close>

function followDelegationChain ::
  "Ledger \<Rightarrow> int \<Rightarrow> string \<Rightarrow> string \<Rightarrow> string list
     \<Rightarrow> string set \<times> SigningPath list \<Rightarrow> nat \<Rightarrow> string set \<times> SigningPath list"
where
  "followDelegationChain L maxDepth sourceUrl targetUrl currentPath st depth =
     (let normalizedTarget = normalizeUrl targetUrl
      in if normalizedTarget \<in> fst st \<or> int depth > maxDepth then st
         else
           let visited = insert normalizedTarget (fst st)
           in if \<not> accountExists L normalizedTarget then (visited, snd st)
              else
                let newPath = currentPath @ [normalizedTarget];
                    results = snd st @ [mkSigningPath newPath normalizedTarget]
                in (case queryKeyPage L normalizedTarget of
                      None \<Rightarrow> (visited, results)
                    | Some keyPageData \<Rightarrow>
                        fold (\<lambda>delegate st'.
                                followDelegationChain L maxDepth normalizedTarget delegate
                                  newPath st' (depth + 1))
                          (newDelegates keyPageData) (visited, results)))"
  by pat_completeness auto
termination
  by (relation "measure (\<lambda>(L, maxDepth, sourceUrl, targetUrl, currentPath, st, depth).
                  nat (maxDepth + 1 - int depth))") auto

declare followDelegationChain.simps [simp del]

text \<open>Decimal digits of a page number, as the template string \<open>`${bookUrl}/${i}`\<close> writes them.\<close>

definition digitChar :: "nat \<Rightarrow> char" where
  "digitChar d = char_of (48 + d)"

function natToDec :: "nat \<Rightarrow> string" where
  "natToDec n = (if n < 10 then [digitChar n] else natToDec (n div 10) @ [digitChar (n mod 10)])"
  by pat_completeness auto
termination
  by (relation "measure id") auto

declare natToDec.simps [simp del]

definition intToDec :: "int \<Rightarrow> string" where
  "intToDec i = (if i < 0 then CHR ''-'' # natToDec (nat (- i)) else natToDec (nat i))"

text \<open>Adding to a JavaScript \<open>Set\<close>, which iterates in insertion order.\<close>

definition setAdd :: "'a \<Rightarrow> 'a list \<Rightarrow> 'a list" where
  "setAdd x xs = (if x \<in> set xs then xs else xs @ [x])"

definition toFirestoreKeyPage :: "AccumulateKeyPage \<Rightarrow> CertenKeyPage" where
  "toFirestoreKeyPage akp =
     \<lparr>pageUrl = akpUrl akp,
      pageVersion = akpVersion akp,
      pageThreshold = akpThreshold akp,
      pageCreditBalance = akpCreditBalance akp,
      pageEntries =
        map (\<lambda>k. \<lparr>entryType = (if truthyStr (delegate k) then DelegateEntry else KeyEntry),
                    entryPublicKeyHash = (if publicKeyHash k \<noteq> [] then Some (publicKeyHash k) else None),
                    entryKeyType = (if truthyStr (keyType k) then keyType k else None),
                    entryDelegateUrl = (if truthyStr (delegate k) then delegate k else None)\<rparr>)
          (keys akp)\<rparr>"

text \<open>
  The state of \<open>discoverSigningPaths\<close>: the paths found so far, the \<open>visited\<close> set
  shared by all launches of the search for this identity, and the pages already entered
  as direct paths.
\<close>

record explorer =
  paths :: "SigningPath list"
  visited :: "string set"
  processedPages :: "string set"

text \<open>Launch the search from a page for each of its delegates, in order.\<close>

definition followDelegates ::
  "Ledger \<Rightarrow> int \<Rightarrow> string \<Rightarrow> string list \<Rightarrow> explorer \<Rightarrow> explorer" where
  "followDelegates L maxDepth page delegates e =
     (let r = fold (\<lambda>delegateUrl st.
                      followDelegationChain L maxDepth page delegateUrl [page] st 1)
                delegates (visited e, paths e)
      in e\<lparr>visited := fst r, paths := snd r\<rparr>)"

text \<open>The body of the first loop: one key page stored with the identity.\<close>

definition storedPageStep :: "Ledger \<Rightarrow> int \<Rightarrow> CertenKeyPage \<Rightarrow> explorer \<Rightarrow> explorer" where
  "storedPageStep L maxDepth keyPage e =
     (let page = normalizeUrl (pageUrl keyPage)
      in if page \<in> processedPages e then e
         else followDelegates L maxDepth page (extractDelegates keyPage)
                (e\<lparr>processedPages := insert page (processedPages e),
                   paths := paths e @ [mkSigningPath [page] page]\<rparr>))"

text \<open>
  The body of the inner loop of the second pass: page \<open>i\<close> of a key book on the
  ledger.  The second component collects the pages read for the book.
\<close>

definition livePageStep ::
  "Ledger \<Rightarrow> int \<Rightarrow> string \<Rightarrow> int \<Rightarrow> explorer \<times> CertenKeyPage list
     \<Rightarrow> explorer \<times> CertenKeyPage list" where
  "livePageStep L maxDepth book i acc =
     (let e = fst acc;
          page = normalizeUrl (book @ ''/'' @ intToDec i);
          keyPageData = queryKeyPage L page;
          discoveredPages =
            (case keyPageData of
               None \<Rightarrow> snd acc
             | Some kp \<Rightarrow> snd acc @ [toFirestoreKeyPage kp])
      in if page \<in> processedPages e then (e, discoveredPages)
         else
           let e1 = e\<lparr>processedPages := insert page (processedPages e),
                       paths := paths e @ [mkSigningPath [page] page]\<rparr>
           in (case keyPageData of
                 None \<Rightarrow> (e1, discoveredPages)
               | Some kp \<Rightarrow>
                   (followDelegates L maxDepth page (newDelegates kp) e1, discoveredPages)))"

definition liveBookStep ::
  "Ledger \<Rightarrow> int \<Rightarrow> string \<Rightarrow> explorer \<times> CertenKeyBook list
     \<Rightarrow> explorer \<times> CertenKeyBook list" where
  "liveBookStep L maxDepth book acc =
     (let pageCount = keyBookPageCount L book
      in if pageCount = 0 then acc
         else
           let r = fold (livePageStep L maxDepth book) [1..pageCount] (fst acc, [])
           in (fst r, snd acc @ [\<lparr>bookUrl = book, bookKeyPages = snd r\<rparr>]))"

record SigningPathDiscoveryResult =
  resultPaths :: "SigningPath list"
  discoveredKeyBooks :: "CertenKeyBook list"

definition discoverSigningPaths ::
  "Ledger \<Rightarrow> int \<Rightarrow> CertenAdi \<Rightarrow> SigningPathDiscoveryResult" where
  "discoverSigningPaths L maxDepth userAdi =
     (let keyBookUrls =
            fold setAdd
              (map (\<lambda>keyBook. normalizeUrl (bookUrl keyBook)) (keyBooks userAdi)
               @ map normalizeUrl (queryDirectory L (adiUrl userAdi)))
              [];
          e0 = \<lparr>paths = [], visited = {}, processedPages = {}\<rparr>;
          e1 = fold (storedPageStep L maxDepth)
                 (concat (map bookKeyPages (keyBooks userAdi))) e0;
          r = fold (liveBookStep L maxDepth) keyBookUrls (e1, [])
      in \<lparr>resultPaths = paths (fst r), discoveredKeyBooks = snd r\<rparr>)"

subsection \<open>Notions used to state the explorer's properties\<close>

text \<open>Every URL a key page of the ledger delegates to, as the search normalizes it.\<close>

definition delegateTargets :: "Ledger \<Rightarrow> string set" where
  "delegateTargets L =
     {normalizeUrl d | d u kp. queryKeyPage L u = Some kp \<and> d \<in> set (newDelegates kp)}"

text \<open>
  What one run of the search does to its state: \<open>visited\<close> only grows, and only by
  URLs of \<open>B\<close>; paths are only appended, each new one ends at a URL that was not yet
  visited, and no two new ones end at the same URL.
\<close>

definition dfsPost ::
  "string set \<Rightarrow> string set \<times> SigningPath list \<Rightarrow> string set \<times> SigningPath list \<Rightarrow> bool" where
  "dfsPost B st r =
     (fst st \<subseteq> fst r \<and> fst r \<subseteq> fst st \<union> B
      \<and> (\<exists>new. snd r = snd st @ new \<and> distinct (map finalSigner new)
                 \<and> finalSigner ` set new \<subseteq> fst r - fst st))"

definition pathOk :: "int \<Rightarrow> SigningPath \<Rightarrow> bool" where
  "pathOk maxDepth p =
     (hops p \<noteq> [] \<and> int (length (hops p)) \<le> maxDepth + 1 \<and> distinct (tl (hops p))
      \<and> finalSigner p = last (hops p) \<and> path p = joinArrow (hops p))"

definition pathsOk :: "int \<Rightarrow> explorer \<Rightarrow> bool" where
  "pathsOk md e = (\<forall>p\<in>set (paths e). pathOk md p)"

subsection \<open>A delegation cycle\<close>

text \<open>
  Scenario S4 of the specification: the user owns page \<open>a.acme/book/1\<close>, which
  delegates to \<open>b.acme/book/1\<close>, which delegates back.  Both pages exist on the ledger;
  the user's key book has one page.
\<close>

definition cyclePage :: "string \<Rightarrow> string \<Rightarrow> AccumulateKeyPage" where
  "cyclePage u d =
     \<lparr>akpUrl = u, akpVersion = 1, akpThreshold = 1, akpCreditBalance = 0,
      keys = [\<lparr>publicKeyHash = [], delegate = Some d, keyType = None\<rparr>]\<rparr>"

definition cycleLedger :: Ledger where
  "cycleLedger =
     \<lparr>accountExists = (\<lambda>u. True),
      queryKeyPage = (\<lambda>u.
         if u = ''acc://a.acme/book/1'' then Some (cyclePage u ''acc://b.acme/book/1'')
         else if u = ''acc://b.acme/book/1'' then Some (cyclePage u ''acc://a.acme/book/1'')
         else None),
      keyBookPageCount = (\<lambda>u. if u = ''acc://a.acme/book'' then 1 else 0),
      queryDirectory = (\<lambda>u. [''acc://a.acme/book'']),
      queryPending = (\<lambda>u n. []),
      querySignatureChain = (\<lambda>u s c e. ([], 0)),
      queryTransactionRaw = (\<lambda>t. None),
      queryTransaction = (\<lambda>t. None)\<rparr>"

definition cycleAdi :: CertenAdi where
  "cycleAdi =
     \<lparr>adiUrl = ''acc://a.acme'',
      keyBooks =
        [\<lparr>bookUrl = ''acc://a.acme/book'',
          bookKeyPages =
            [\<lparr>pageUrl = ''acc://a.acme/book/1'', pageVersion = 1, pageThreshold = 1,
              pageCreditBalance = 0,
              pageEntries =
                [\<lparr>entryType = DelegateEntry, entryPublicKeyHash = None, entryKeyType = None,
                  entryDelegateUrl = Some ''acc://b.acme/book/1''\<rparr>]\<rparr>]\<rparr>],
      accounts = []\<rparr>"

section \<open>Discovery engine (services/pending-discovery.service.ts)\<close>

text \<open>
  \<open>eligibleTxs\<close> is a JavaScript \<open>Map\<close>, which keeps its keys in insertion order and
  hands out its values in that order: an association list with one entry per key.
  \<open>allSignatures\<close> is only looked up by key: a map.
\<close>

type_synonym eligibleMap = "(string \<times> EligibleTransaction) list"
type_synonym signatureMap = "string \<rightharpoonup> AccumulateSignature list"

definition addEligibleTx ::
  "eligibleMap \<Rightarrow> AccumulatePendingTx \<Rightarrow> string \<Rightarrow> category \<Rightarrow> eligibleMap" where
  "addEligibleTx m t signingPath cat =
     (let h = normalizeHash (hash t)
      in if h \<notin> fst ` set m
         then m @ [(h, \<lparr>tx = t, eligiblePaths = [signingPath], category = cat\<rparr>)]
         else map (\<lambda>(k, existing).
                     if k = h
                     then (k, existing
                            \<lparr>eligiblePaths :=
                               (if signingPath \<in> set (eligiblePaths existing)
                                then eligiblePaths existing
                                else eligiblePaths existing @ [signingPath]),
                             category :=
                               (if cat = InitiatedByUser then InitiatedByUser
                                else category existing)\<rparr>)
                     else (k, existing)) m)"

definition cacheSignatures ::
  "signatureMap \<Rightarrow> string \<Rightarrow> AccumulateSignature list \<Rightarrow> signatureMap" where
  "cacheSignatures allSignatures normalizedHash sigs =
     (case allSignatures normalizedHash of
        Some cached \<Rightarrow> allSignatures
      | None \<Rightarrow> allSignatures(normalizedHash \<mapsto> sigs))"

subsection \<open>Phase 1: signing paths\<close>

definition priorHopSigned :: "AccumulatePendingTx \<Rightarrow> string \<Rightarrow> bool" where
  "priorHopSigned t priorHop =
     (\<exists>sig \<in> set (signatures t). normalizeUrl (signer sig) = normalizeUrl priorHop)"

text \<open>\<open>signingPath.hops[signingPath.hops.length - 2]\<close>, read only when there are two hops.\<close>

definition priorHopOf :: "SigningPath \<Rightarrow> string" where
  "priorHopOf signingPath = hops signingPath ! (length (hops signingPath) - 2)"

definition phase1Tx ::
  "SigningPath \<Rightarrow> string \<Rightarrow> AccumulatePendingTx
     \<Rightarrow> eligibleMap \<times> signatureMap \<Rightarrow> eligibleMap \<times> signatureMap" where
  "phase1Tx signingPath priorHop t st =
     (let normalizedHash = normalizeHash (hash t);
          allSignatures = cacheSignatures (snd st) normalizedHash (signatures t)
      in if \<not> priorHopSigned t priorHop
         then (addEligibleTx (fst st) t (path signingPath) RequiringSignature, allSignatures)
         else (fst st, allSignatures))"

definition phase1Path ::
  "Ledger \<Rightarrow> int \<Rightarrow> SigningPath \<Rightarrow> eligibleMap \<times> signatureMap \<Rightarrow> eligibleMap \<times> signatureMap" where
  "phase1Path L pendingPageSize signingPath st =
     (if length (hops signingPath) < 2 then st
      else fold (phase1Tx signingPath (priorHopOf signingPath))
             (queryPending L (finalSigner signingPath) pendingPageSize) st)"

text \<open>The set of the user's key hashes is a parameter of the method, as in the source.\<close>

definition processSigningPaths ::
  "Ledger \<Rightarrow> int \<Rightarrow> SigningPath list \<Rightarrow> string set
     \<Rightarrow> eligibleMap \<times> signatureMap \<Rightarrow> eligibleMap \<times> signatureMap" where
  "processSigningPaths L pendingPageSize signingPaths userKeyHashes st =
     fold (phase1Path L pendingPageSize) signingPaths st"

subsection \<open>Phase 1 as the specification words it\<close>


subsection \<open>A delegated transaction\<close>


definition s3Delegated :: SigningPath where
  "s3Delegated =
     mkSigningPath [''acc://bob.acme/book/1'', ''acc://corp.acme/book/1'']
       ''acc://corp.acme/book/1''"

definition s3Unsigned :: AccumulatePendingTx where
  "s3Unsigned =
     \<lparr>txId = ''acc://aa11@corp.acme/tokens'', hash = ''aa11'',
      principal = ''acc://corp.acme/tokens'', txType = ''sendTokens'', txStatus = ''pending'',
      signatures = [], expiresAt = None\<rparr>"









section \<open>Inbox store (clients/firestore.client.ts)\<close>

record SignatureRecord =
  recSigner :: string
  recPublicKeyHash :: string
  recVote :: vote
  recSignedAt :: int

datatype actionStatus = StatusPending | StatusPartiallySigned

text \<open>
  \<open>docId\<close> is the field \<open>id\<close> of the document's data.  The ID under which the store
  keeps the document is the key of the subcollection below.
\<close>

record PendingActionDocument =
  docId :: string
  docCategory :: category
  docType :: string
  docStatus :: actionStatus
  docTxHash :: string
  docTxId :: string
  docPrincipal :: string
  docTransactionType :: string
  docCollectedSignatures :: nat
  docSignatures :: "SignatureRecord list"
  docEligibleSigningPaths :: "string list"
  docUserHasSigned :: bool
  docCreatedAt :: int
  docUpdatedAt :: int
  docDiscoveredAt :: int
  docExpiresAt :: "int option"

record ComputedPendingState =
  stateCount :: nat
  urgentCount :: nat
  initiatedCount :: nat
  requiresSignatureCount :: nat
  txHashes :: "string list"
  computedAt :: int
  cycleToken :: string

text \<open>
  The store, by user: the \<open>pendingActions\<close> subcollection as document ID and data, the
  document \<open>computedState/pending\<close>, and the signing paths kept on the user document.
  Every operation throws when the store is not \<open>available\<close>.  Any string serves as a
  document ID: what the store's SDK refuses as an ID is not modelled.
\<close>

record Firestore =
  pendingActions :: "string \<Rightarrow> (string \<times> PendingActionDocument) list"
  computedState :: "string \<Rightarrow> ComputedPendingState option"
  userSigningPaths :: "string \<Rightarrow> string list"
  available :: bool

datatype storeError = StoreError

text \<open>\<open>snapshot.docs.map(doc => doc.data())\<close>: the data of each document, without its ID.\<close>

definition getPendingActions :: "Firestore \<Rightarrow> string \<Rightarrow> storeError + PendingActionDocument list" where
  "getPendingActions db u =
     (if available db then Inr (map snd (pendingActions db u)) else Inl StoreError)"

text \<open>
  \<open>set(ref, data, {merge: true})\<close> keeps the fields of the stored document that the new
  data does not carry.  A document built by the state manager carries every field but,
  possibly, \<open>expiresAt\<close>.
\<close>

definition mergeDoc :: "PendingActionDocument \<Rightarrow> PendingActionDocument \<Rightarrow> PendingActionDocument" where
  "mergeDoc old new =
     new\<lparr>docExpiresAt := (case docExpiresAt new of None \<Rightarrow> docExpiresAt old | Some e \<Rightarrow> Some e)\<rparr>"

datatype batchOp =
    BatchDelete string
  | BatchSet string PendingActionDocument
  | BatchSetComputed ComputedPendingState

definition deleteDoc ::
  "string \<Rightarrow> (string \<times> PendingActionDocument) list \<Rightarrow> (string \<times> PendingActionDocument) list" where
  "deleteDoc k docs = filter (\<lambda>(k', d). k' \<noteq> k) docs"

definition setDocMerge ::
  "string \<Rightarrow> PendingActionDocument \<Rightarrow> (string \<times> PendingActionDocument) list
     \<Rightarrow> (string \<times> PendingActionDocument) list" where
  "setDocMerge k new docs =
     (if k \<in> fst ` set docs
      then map (\<lambda>(k', d). if k' = k then (k', mergeDoc d new) else (k', d)) docs
      else docs @ [(k, new)])"

fun applyBatchOp :: "string \<Rightarrow> batchOp \<Rightarrow> Firestore \<Rightarrow> Firestore" where
  "applyBatchOp u (BatchDelete k) db =
     db\<lparr>pendingActions := (pendingActions db)(u := deleteDoc k (pendingActions db u))\<rparr>"
| "applyBatchOp u (BatchSet k d) db =
     db\<lparr>pendingActions := (pendingActions db)(u := setDocMerge k d (pendingActions db u))\<rparr>"
| "applyBatchOp u (BatchSetComputed s) db =
     db\<lparr>computedState := (computedState db)(u := Some s)\<rparr>"

text \<open>\<open>batch.commit()\<close>: all operations of the batch, in order, as one step; or an error.\<close>

definition commitBatch :: "string \<Rightarrow> batchOp list \<Rightarrow> Firestore \<Rightarrow> storeError + Firestore" where
  "commitBatch u ops db = (if available db then Inr (fold (applyBatchOp u) ops db) else Inl StoreError)"

definition updatePendingActions ::
  "Firestore \<Rightarrow> string \<Rightarrow> PendingActionDocument list \<Rightarrow> string list \<Rightarrow> ComputedPendingState
     \<Rightarrow> storeError + Firestore" where
  "updatePendingActions db u toAdd toRemove computed =
     commitBatch u
       (map BatchDelete toRemove
        @ map (\<lambda>action. BatchSet (docId action) action) toAdd
        @ [BatchSetComputed computed])
       db"

text \<open>
  Modelled from the spec: \<open>FirestoreClient.updateUserSigningPaths\<close>, which the poller
  calls and which is not among the sources.  Section 4.5 has the explorer's output
  refresh what is stored with the identity; the model writes the path renderings on the
  user's document and touches nothing else.
\<close>

definition updateUserSigningPaths :: "Firestore \<Rightarrow> string \<Rightarrow> string list \<Rightarrow> storeError + Firestore" where
  "updateUserSigningPaths db u ps =
     (if available db then Inr (db\<lparr>userSigningPaths := (userSigningPaths db)(u := ps)\<rparr>)
      else Inl StoreError)"

section \<open>Inbox reconciler (services/state-manager.service.ts)\<close>

record DiscoveryResult =
  eligibleTransactions :: "EligibleTransaction list"
  totalCount :: nat
  resultSignatures :: signatureMap

record UpdateResult =
  updSuccess :: bool
  updAdded :: int
  updRemoved :: nat
  updCycleToken :: string

definition convertSignature :: "AccumulateSignature \<Rightarrow> int \<Rightarrow> SignatureRecord" where
  "convertSignature sig now =
     \<lparr>recSigner = signer sig,
      recPublicKeyHash = sigPublicKeyHash sig,
      recVote = (case vote sig of None \<Rightarrow> Approve | Some v \<Rightarrow> v),
      recSignedAt = (case timestamp sig of None \<Rightarrow> now | Some ts \<Rightarrow> ts)\<rparr>"

definition buildPendingActionDocument ::
  "EligibleTransaction \<Rightarrow> AccumulateSignature list \<Rightarrow> int \<Rightarrow> PendingActionDocument" where
  "buildPendingActionDocument eligible sigs now =
     \<lparr>docId = normalizeHash (hash (tx eligible)),
      docCategory = category eligible,
      docType = ''transaction'',
      docStatus = (if length sigs > 0 then StatusPartiallySigned else StatusPending),
      docTxHash = hash (tx eligible),
      docTxId = txId (tx eligible),
      docPrincipal = principal (tx eligible),
      docTransactionType = txType (tx eligible),
      docCollectedSignatures = length sigs,
      docSignatures = map (\<lambda>s. convertSignature s now) sigs,
      docEligibleSigningPaths = eligiblePaths eligible,
      docUserHasSigned = False,
      docCreatedAt = now,
      docUpdatedAt = now,
      docDiscoveredAt = now,
      docExpiresAt = expiresAt (tx eligible)\<rparr>"

text \<open>\<open>isUrgent\<close> reads the wall clock, \<open>nowMs\<close>.\<close>

definition isUrgent :: "int \<Rightarrow> int \<Rightarrow> bool" where
  "isUrgent nowMs expiry = (expiry - nowMs < 24 * 60 * 60 * 1000)"

text \<open>
  \<open>updateUserPendingState\<close>.  The store's clock \<open>now\<close>, the wall clock \<open>nowMs\<close> and
  the generated cycle token are parameters.  The result is the error of a failed store
  operation, or the update result and the store after it.
\<close>

definition updateUserPendingState ::
  "bool \<Rightarrow> Firestore \<Rightarrow> string \<Rightarrow> DiscoveryResult \<Rightarrow> int \<Rightarrow> int \<Rightarrow> string
     \<Rightarrow> storeError + UpdateResult \<times> Firestore" where
  "updateUserPendingState dryRun db u discovery now nowMs token =
     (case getPendingActions db u of
        Inl e \<Rightarrow> Inl e
      | Inr currentPending \<Rightarrow>
          let currentHashes = set (map docId currentPending);
              newHashes = fold setAdd
                            (map (\<lambda>t. normalizeHash (hash (tx t))) (eligibleTransactions discovery)) [];
              toRemove = map docId (filter (\<lambda>doc. docId doc \<notin> set newHashes) currentPending);
              toAdd = map (\<lambda>eligible.
                             buildPendingActionDocument eligible
                               (case resultSignatures discovery (normalizeHash (hash (tx eligible))) of
                                  Some sigs \<Rightarrow> sigs
                                | None \<Rightarrow> signatures (tx eligible))
                               now)
                        (eligibleTransactions discovery);
              computed =
                \<lparr>stateCount = totalCount discovery,
                 urgentCount =
                   length (filter (\<lambda>t. case expiresAt (tx t) of None \<Rightarrow> False
                                         | Some ex \<Rightarrow> isUrgent nowMs ex)
                             (eligibleTransactions discovery)),
                 initiatedCount =
                   length (filter (\<lambda>t. category t = InitiatedByUser) (eligibleTransactions discovery)),
                 requiresSignatureCount =
                   length (filter (\<lambda>t. category t = RequiringSignature) (eligibleTransactions discovery)),
                 txHashes = newHashes,
                 computedAt = now,
                 cycleToken = token\<rparr>;
              result =
                \<lparr>updSuccess = True,
                 updAdded = int (length toAdd) - int (card currentHashes),
                 updRemoved = length toRemove,
                 updCycleToken = token\<rparr>
          in if dryRun then Inr (result, db)
             else (case updatePendingActions db u toAdd toRemove computed of
                     Inl e \<Rightarrow> Inl e
                   | Inr db' \<Rightarrow> Inr (result, db')))"

text \<open>The document IDs of a user's inbox.\<close>

definition inboxIds :: "Firestore \<Rightarrow> string \<Rightarrow> string set" where
  "inboxIds db u = fst ` set (pendingActions db u)"

text \<open>Every stored document carries its own document ID in its \<open>id\<close> field.\<close>

definition docsConsistent :: "(string \<times> PendingActionDocument) list \<Rightarrow> bool" where
  "docsConsistent docs = (\<forall>(k, d) \<in> set docs. docId d = k)"

definition idsConsistent :: "Firestore \<Rightarrow> string \<Rightarrow> bool" where
  "idsConsistent db u = docsConsistent (pendingActions db u)"

text \<open>The store after an update, or the store as it was when the update failed.\<close>

definition storeAfter :: "Firestore \<Rightarrow> storeError + UpdateResult \<times> Firestore \<Rightarrow> Firestore" where
  "storeAfter db r = (case r of Inl e \<Rightarrow> db | Inr (res, db') \<Rightarrow> db')"

subsection \<open>A stray document\<close>

text \<open>
  An inbox holding one document whose \<open>id\<close> field (\<open>h7\<close>) is not its document ID
  (\<open>h9\<close>), and a discovery that found nothing.
\<close>

definition strayDoc :: PendingActionDocument where
  "strayDoc =
     \<lparr>docId = ''h7'', docCategory = RequiringSignature, docType = ''transaction'',
      docStatus = StatusPending, docTxHash = ''h7'', docTxId = ''acc://h7@x.acme'',
      docPrincipal = ''acc://x.acme'', docTransactionType = ''sendTokens'',
      docCollectedSignatures = 0, docSignatures = [], docEligibleSigningPaths = [],
      docUserHasSigned = False, docCreatedAt = 0, docUpdatedAt = 0, docDiscoveredAt = 0,
      docExpiresAt = None\<rparr>"

definition strayStore :: Firestore where
  "strayStore =
     \<lparr>pendingActions = (\<lambda>u. if u = ''u1'' then [(''h9'', strayDoc)] else []),
      computedState = (\<lambda>u. None),
      userSigningPaths = (\<lambda>u. []),
      available = True\<rparr>"

definition emptyDiscovery :: DiscoveryResult where
  "emptyDiscovery = \<lparr>eligibleTransactions = [], totalCount = 0, resultSignatures = Map.empty\<rparr>"

text \<open>The same inbox with the document filed under its own \<open>id\<close>, and a discovery of one transaction.\<close>

definition tidyStore :: Firestore where
  "tidyStore = strayStore\<lparr>pendingActions := (\<lambda>u. if u = ''u1'' then [(''h7'', strayDoc)] else [])\<rparr>"

definition s3Discovery :: DiscoveryResult where
  "s3Discovery =
     \<lparr>eligibleTransactions =
        [\<lparr>tx = s3Unsigned, eligiblePaths = [path s3Delegated], category = RequiringSignature\<rparr>],
      totalCount = 1,
      resultSignatures = Map.empty\<rparr>"

section \<open>Discovery engine: phases 2 and 3 and the whole discovery\<close>

definition extractAdiFromUrl :: "string \<Rightarrow> string" where
  "extractAdiFromUrl url =
     (let normalized = normalizeUrl url
      in if normalized = [] then []
         else
           let p = substring normalized 6;
               slashIndex = indexOf p CHR ''/''
           in if slashIndex = - 1 then normalized
              else ''acc://'' @ substringTo p slashIndex)"

definition extractUserKeyHashes :: "CertenUserWithAdis \<Rightarrow> string set" where
  "extractUserKeyHashes user =
     set (map (\<lambda>entry. normalizePublicKeyHash (the (entryPublicKeyHash entry)))
            (filter (\<lambda>entry. entryType entry = KeyEntry \<and> truthyStr (entryPublicKeyHash entry))
               (concat (map pageEntries
                  (concat (map bookKeyPages (concat (map keyBooks (adis user)))))))))"

definition hasUserSigned :: "AccumulateSignature list \<Rightarrow> string set \<Rightarrow> bool" where
  "hasUserSigned sigs userKeyHashes =
     (\<exists>sig \<in> set sigs. normalizePublicKeyHash (sigPublicKeyHash sig) \<in> userKeyHashes)"

definition determineCategory :: "AccumulatePendingTx \<Rightarrow> string \<Rightarrow> category" where
  "determineCategory t adi =
     (if extractAdiFromUrl (principal t) = normalizeUrl adi then InitiatedByUser
      else RequiringSignature)"

subsection \<open>Phase 2: direct accounts\<close>

text \<open>\<open>addAccount\<close> normalizes what it is given, also a URL that was normalized before.\<close>

definition addAccount :: "string \<Rightarrow> string list \<Rightarrow> string list" where
  "addAccount url accountSet = setAdd (normalizeUrl url) accountSet"

definition discoverAdiAccounts :: "Ledger \<Rightarrow> CertenAdi \<Rightarrow> string list" where
  "discoverAdiAccounts L adi =
     (let s0 = addAccount (adiUrl adi) [];
          s1 = fold (\<lambda>account. addAccount (accountUrl account)) (accounts adi) s0;
          s2 = fold (\<lambda>keyBook. addAccount (normalizeUrl (bookUrl keyBook))) (keyBooks adi) s1;
          k2 = fold (\<lambda>keyBook. setAdd (normalizeUrl (bookUrl keyBook))) (keyBooks adi) [];
          directory = queryDirectory L (adiUrl adi);
          s3 = fold addAccount directory s2;
          keyBookUrls = fold (\<lambda>entry. setAdd (normalizeUrl entry)) directory k2
      in fold (\<lambda>book accountSet.
                 fold (\<lambda>i. addAccount (book @ ''/'' @ intToDec i))
                   [1..keyBookPageCount L book] accountSet)
           keyBookUrls s3)"

definition phase2Tx ::
  "string set \<Rightarrow> string \<Rightarrow> AccumulatePendingTx
     \<Rightarrow> eligibleMap \<times> signatureMap \<Rightarrow> eligibleMap \<times> signatureMap" where
  "phase2Tx userKeyHashes adi t st =
     (let normalizedHash = normalizeHash (hash t);
          allSignatures = cacheSignatures (snd st) normalizedHash (signatures t)
      in if \<not> hasUserSigned (signatures t) userKeyHashes
         then (addEligibleTx (fst st) t adi (determineCategory t adi), allSignatures)
         else (fst st, allSignatures))"

definition phase2Adi ::
  "Ledger \<Rightarrow> int \<Rightarrow> string set \<Rightarrow> CertenAdi
     \<Rightarrow> eligibleMap \<times> signatureMap \<Rightarrow> eligibleMap \<times> signatureMap" where
  "phase2Adi L pendingPageSize userKeyHashes adi st =
     fold (\<lambda>account. fold (phase2Tx userKeyHashes (adiUrl adi))
                        (queryPending L account pendingPageSize))
       (discoverAdiAccounts L adi) st"

definition processUserAccounts ::
  "Ledger \<Rightarrow> int \<Rightarrow> CertenUserWithAdis \<Rightarrow> string set
     \<Rightarrow> eligibleMap \<times> signatureMap \<Rightarrow> eligibleMap \<times> signatureMap" where
  "processUserAccounts L pendingPageSize user userKeyHashes st =
     fold (phase2Adi L pendingPageSize userKeyHashes) (adis user) st"

subsection \<open>JavaScript coercions used by the chain scan\<close>

fun truthy :: "json \<Rightarrow> bool" where
  "truthy JUndefined = False"
| "truthy JNull = False"
| "truthy (JBool b) = b"
| "truthy (JNum n) = (n \<noteq> 0)"
| "truthy (JStr s) = (s \<noteq> [])"
| "truthy (JArr xs) = True"
| "truthy (JObj kvs) = True"

text \<open>\<open>a || b\<close>.\<close>

definition jsOr :: "json \<Rightarrow> json \<Rightarrow> json" where
  "jsOr a b = (if truthy a then a else b)"

text \<open>\<open>typeof v === 'object' && v !== null\<close>: objects and arrays.\<close>

fun isObject :: "json \<Rightarrow> bool" where
  "isObject (JArr xs) = True"
| "isObject (JObj kvs) = True"
| "isObject v = False"

fun joinComma :: "string list \<Rightarrow> string" where
  "joinComma [] = []"
| "joinComma [x] = x"
| "joinComma (x # y # ys) = x @ '','' @ joinComma (y # ys)"

text \<open>\<open>String(v)\<close>: an array joins its elements with commas, \<open>null\<close> and \<open>undefined\<close> elements as empty strings.\<close>

fun jsString :: "json \<Rightarrow> string" where
  "jsString JUndefined = ''undefined''"
| "jsString JNull = ''null''"
| "jsString (JBool b) = (if b then ''true'' else ''false'')"
| "jsString (JNum n) = intToDec n"
| "jsString (JStr s) = s"
| "jsString (JArr xs) =
     joinComma (map (\<lambda>x. if x = JUndefined \<or> x = JNull then [] else jsString x) xs)"
| "jsString (JObj kvs) = ''[object Object]''"

text \<open>
  \<open>for (const x of v)\<close>: the elements of an array, the characters of a string;
  \<open>None\<close> is the \<open>TypeError\<close> of a value that is not iterable.
\<close>

fun iterate :: "json \<Rightarrow> json list option" where
  "iterate (JArr xs) = Some xs"
| "iterate (JStr s) = Some (map (\<lambda>c. JStr [c]) s)"
| "iterate v = None"

text \<open>Reading a member of a value known not to be \<open>null\<close> or \<open>undefined\<close>.\<close>

definition member :: "json \<Rightarrow> string \<Rightarrow> json" where
  "member v k = optProp v k"

subsection \<open>Phase 3: signature-chain scan\<close>

definition extractStatus :: "json \<Rightarrow> string" where
  "extractStatus txRaw =
     (let statusField = member txRaw ''status''
      in case statusField of
           JStr s \<Rightarrow> toLowerCase s
         | _ \<Rightarrow>
           if isObject statusField
           then
             (case member statusField ''code'' of
                JNum code \<Rightarrow>
                  if code = 202 then ''pending'' else if code = 201 then ''delivered'' else ''other''
              | JStr code \<Rightarrow> toLowerCase code
              | _ \<Rightarrow>
                  if member statusField ''pending'' = JBool True then ''pending''
                  else if member statusField ''delivered'' = JBool True then ''delivered''
                  else ''unknown'')
           else ''unknown'')"

record scanState =
  seenHashes :: "string set"
  scanEligible :: eligibleMap
  scanSignatures :: signatureMap

text \<open>The body of the loop over the produced records of one signature request.\<close>

definition scanProduced ::
  "Ledger \<Rightarrow> string set \<Rightarrow> string \<Rightarrow> json \<Rightarrow> scanState \<Rightarrow> scanState" where
  "scanProduced L userKeyHashes book prodRec st =
     (if \<not> isObject prodRec then st
      else
        let prodTxId = jsString (jsOr (jsOr (member prodRec ''value'') (member prodRec ''id'')) (JStr []))
        in if prodTxId = [] then st
           else
             let txHash = normalizeHash prodTxId
             in if txHash = [] \<or> txHash \<in> seenHashes st then st
                else
                  let st1 = st\<lparr>seenHashes := insert txHash (seenHashes st)\<rparr>
                  in (case queryTransactionRaw L prodTxId of
                        None \<Rightarrow> st1
                      | Some txRaw \<Rightarrow>
                          if \<not> truthy txRaw then st1
                          else if extractStatus txRaw \<noteq> ''pending'' then st1
                          else
                            (case queryTransaction L prodTxId of
                               None \<Rightarrow> st1
                             | Some txDetails \<Rightarrow>
                                 if \<not> hasUserSigned (signatures txDetails) userKeyHashes
                                 then st1\<lparr>scanEligible :=
                                            addEligibleTx (scanEligible st1) txDetails book
                                              RequiringSignature,
                                          scanSignatures :=
                                            cacheSignatures (scanSignatures st1) txHash
                                              (signatures txDetails)\<rparr>
                                 else st1)))"

text \<open>
  One record of the chain.  \<open>None\<close>: the produced records are not iterable, the
  \<open>TypeError\<close> leaves the \<open>try\<close> block of this key book.
\<close>

definition scanRecord ::
  "Ledger \<Rightarrow> string set \<Rightarrow> string \<Rightarrow> json \<Rightarrow> scanState \<Rightarrow> scanState option" where
  "scanRecord L userKeyHashes book rec st =
     (if \<not> isObject rec then Some st
      else
        let v = jsOr (member rec ''value'') rec;
            message = jsOr (member v ''message'') (JObj []);
            msgType = jsString (jsOr (member message ''type'') (JStr []))
        in if msgType \<noteq> ''signatureRequest'' then Some st
           else
             let produced = jsOr (member v ''produced'') (JObj []);
                 producedRecords = jsOr (member produced ''records'') (JArr [])
             in (case iterate producedRecords of
                   None \<Rightarrow> None
                 | Some prodRecs \<Rightarrow>
                     Some (fold (scanProduced L userKeyHashes book) prodRecs st)))"

fun scanRecords ::
  "Ledger \<Rightarrow> string set \<Rightarrow> string \<Rightarrow> json list \<Rightarrow> scanState \<Rightarrow> scanState" where
  "scanRecords L userKeyHashes book [] st = st"
| "scanRecords L userKeyHashes book (rec # recs) st =
     (case scanRecord L userKeyHashes book rec st of
        None \<Rightarrow> st
      | Some st' \<Rightarrow> scanRecords L userKeyHashes book recs st')"

definition scanBook :: "Ledger \<Rightarrow> string set \<Rightarrow> string \<Rightarrow> scanState \<Rightarrow> scanState" where
  "scanBook L userKeyHashes book st =
     (let total = snd (querySignatureChain L book 0 1 False)
      in if total = 0 then st
         else
           let maxEntries = 30;
               startIndex = (if total > maxEntries then total - maxEntries else 0);
               count = (if total > maxEntries then maxEntries else total);
               records = fst (querySignatureChain L book startIndex count True)
           in scanRecords L userKeyHashes book records st)"

definition scanAdi :: "Ledger \<Rightarrow> string set \<Rightarrow> CertenAdi \<Rightarrow> scanState \<Rightarrow> scanState" where
  "scanAdi L userKeyHashes adi st =
     (let k0 = fold (\<lambda>keyBook. setAdd (normalizeUrl (bookUrl keyBook))) (keyBooks adi) [];
          keyBookUrls = fold (\<lambda>entry. setAdd (normalizeUrl entry)) (queryDirectory L (adiUrl adi)) k0
      in fold (scanBook L userKeyHashes) keyBookUrls st)"

definition scanSignatureChains ::
  "Ledger \<Rightarrow> CertenUserWithAdis \<Rightarrow> string set \<Rightarrow> scanState \<Rightarrow> scanState" where
  "scanSignatureChains L user userKeyHashes st = fold (scanAdi L userKeyHashes) (adis user) st"

subsection \<open>The whole discovery\<close>

definition discoverPendingForUser ::
  "Ledger \<Rightarrow> int \<Rightarrow> CertenUserWithAdis \<Rightarrow> SigningPath list \<Rightarrow> DiscoveryResult" where
  "discoverPendingForUser L pendingPageSize user signingPaths =
     (let userKeyHashes = extractUserKeyHashes user;
          st1 = processSigningPaths L pendingPageSize signingPaths userKeyHashes ([], Map.empty);
          st2 = processUserAccounts L pendingPageSize user userKeyHashes st1;
          st3 = scanSignatureChains L user userKeyHashes
                  \<lparr>seenHashes = set (map fst (fst st2)),
                   scanEligible = fst st2,
                   scanSignatures = snd st2\<rparr>
      in \<lparr>eligibleTransactions = map snd (scanEligible st3),
          totalCount = length (scanEligible st3),
          resultSignatures = scanSignatures st3\<rparr>)"

section \<open>Polling supervisor (class PendingActionsPoller)\<close>

record AppConfig =
  pollIntervalSec :: int
  userConcurrency :: int
  delegationDepth :: int
  pendingPageSize :: int
  dryRun :: bool

record PollStats =
  totalUsers :: nat
  processedUsers :: nat
  skippedUsers :: nat
  failedUsers :: nat
  totalPending :: nat
  firestoreWrites :: nat

definition createPollStats :: PollStats where
  "createPollStats =
     \<lparr>totalUsers = 0, processedUsers = 0, skippedUsers = 0, failedUsers = 0,
      totalPending = 0, firestoreWrites = 0\<rparr>"

text \<open>
  \<open>processUser\<close>, on the statistics and the store.  No method of the ledger client
  throws, so the \<open>catch\<close> branch is reached by a failed store operation only; what was
  added to the statistics before the failure stays.  The poller takes the list of paths
  from the explorer's answer.
\<close>

definition processUser ::
  "AppConfig \<Rightarrow> Ledger \<Rightarrow> int \<Rightarrow> int \<Rightarrow> string \<Rightarrow> CertenUserWithAdis
     \<Rightarrow> PollStats \<times> Firestore \<Rightarrow> PollStats \<times> Firestore" where
  "processUser cfg L now nowMs token user st =
     (let stats = fst st; db = snd st
      in if adis user = [] then (stats\<lparr>skippedUsers := skippedUsers stats + 1\<rparr>, db)
         else
           let allPaths =
                 concat (map (\<lambda>adi. resultPaths (discoverSigningPaths L (delegationDepth cfg) adi))
                           (adis user))
           in (case updateUserSigningPaths db (uid user) (map path allPaths) of
                 Inl e \<Rightarrow> (stats\<lparr>failedUsers := failedUsers stats + 1\<rparr>, db)
               | Inr db1 \<Rightarrow>
                   let discovery = discoverPendingForUser L (pendingPageSize cfg) user allPaths;
                       stats1 = stats\<lparr>totalPending := totalPending stats + totalCount discovery\<rparr>
                   in (case updateUserPendingState (dryRun cfg) db1 (uid user) discovery
                              now nowMs token of
                         Inl e \<Rightarrow> (stats1\<lparr>failedUsers := failedUsers stats1 + 1\<rparr>, db1)
                       | Inr (result, db2) \<Rightarrow>
                           (stats1\<lparr>firestoreWrites := firestoreWrites stats1 + 1,
                                   processedUsers := processedUsers stats1 + 1\<rparr>,
                            db2))))"

subsection \<open>The ledger when every RPC fails\<close>

text \<open>
  What each client method answers from its \<open>catch\<close> branch: \<open>accountExists\<close> false,
  \<open>queryKeyPage\<close> and the two transaction queries null, \<open>queryDirectory\<close> and
  \<open>queryPending\<close> an empty list (the pagination loop breaks with nothing gathered),
  \<open>querySignatureChain\<close> no records and a total of 0, and the page count what
  \<open>queryKeyBookPageCount\<close> makes of a failed call.
\<close>

definition ledgerUnavailable :: Ledger where
  "ledgerUnavailable =
     \<lparr>accountExists = (\<lambda>u. False),
      queryKeyPage = (\<lambda>u. None),
      keyBookPageCount = queryKeyBookPageCount (\<lambda>scope. Inl (RpcError ''timeout of 30000ms exceeded'')),
      queryDirectory = (\<lambda>u. []),
      queryPending = (\<lambda>u n. []),
      querySignatureChain = (\<lambda>u s c e. ([], 0)),
      queryTransactionRaw = (\<lambda>t. None),
      queryTransaction = (\<lambda>t. None)\<rparr>"

text \<open>Scenario S1's user: one identity, one key book, one page holding one key.\<close>

definition aliceUser :: CertenUserWithAdis where
  "aliceUser =
     \<lparr>uid = ''u1'',
      adis =
        [\<lparr>adiUrl = ''acc://alice.acme'',
          keyBooks =
            [\<lparr>bookUrl = ''acc://alice.acme/book'',
              bookKeyPages =
                [\<lparr>pageUrl = ''acc://alice.acme/book/1'', pageVersion = 1, pageThreshold = 1,
                  pageCreditBalance = 0,
                  pageEntries =
                    [\<lparr>entryType = KeyEntry, entryPublicKeyHash = Some ''aa'',
                      entryKeyType = None, entryDelegateUrl = None\<rparr>]\<rparr>]\<rparr>],
          accounts = []\<rparr>]\<rparr>"

definition defaultConfig :: AppConfig where
  "defaultConfig =
     \<lparr>pollIntervalSec = 600, userConcurrency = 8, delegationDepth = 10,
      pendingPageSize = 100, dryRun = False\<rparr>"

subsection \<open>The ticker\<close>

text \<open>
  The fields of \<open>PendingActionsPoller\<close> are \<open>isRunning\<close> and \<open>pollTimer\<close> (here:
  whether the interval is armed).  The calls suspended at an \<open>await\<close> are part of the
  state too: \<open>startAwaiting\<close> says that \<open>start\<close> waits for its first \<open>tick\<close>, and
  \<open>cyclesInFlight\<close> counts the invocations of \<open>tick\<close> that passed the guard and have not
  completed.  Between two awaits the code runs without interruption, so the poller moves
  by the steps below.
\<close>

record Poller =
  isRunning :: bool
  pollTimer :: bool
  startAwaiting :: bool
  cyclesInFlight :: nat

definition newPoller :: Poller where
  "newPoller = \<lparr>isRunning = False, pollTimer = False, startAwaiting = False, cyclesInFlight = 0\<rparr>"

datatype tickOutcome = TickSkipped | CycleStarted

text \<open>\<open>tick\<close> up to its first await: the guard, then the cycle begins.\<close>

definition tickEnter :: "Poller \<Rightarrow> tickOutcome \<times> Poller" where
  "tickEnter p =
     (if \<not> isRunning p then (TickSkipped, p)
      else (CycleStarted, p\<lparr>cyclesInFlight := cyclesInFlight p + 1\<rparr>))"

text \<open>\<open>start\<close> up to its await: the flag is set and the first \<open>tick\<close> is entered.\<close>

definition startEnter :: "Poller \<Rightarrow> Poller" where
  "startEnter p = (snd (tickEnter (p\<lparr>isRunning := True\<rparr>)))\<lparr>startAwaiting := True\<rparr>"

datatype pollerEvent = TimerFires | CycleCompletes | Shutdown

text \<open>
  The interval timer calls \<open>tick\<close>; a cycle in flight completes, and if \<open>start\<close> was
  waiting for it, \<open>start\<close> goes on and arms the interval; \<open>shutdown\<close> clears the flag
  and the interval.
\<close>

fun pollerStep :: "pollerEvent \<Rightarrow> Poller \<Rightarrow> Poller" where
  "pollerStep TimerFires p = (if pollTimer p then snd (tickEnter p) else p)"
| "pollerStep CycleCompletes p =
     (if cyclesInFlight p = 0 then p
      else if startAwaiting p
      then p\<lparr>cyclesInFlight := cyclesInFlight p - 1, startAwaiting := False, pollTimer := True\<rparr>
      else p\<lparr>cyclesInFlight := cyclesInFlight p - 1\<rparr>)"
| "pollerStep Shutdown p = p\<lparr>isRunning := False, pollTimer := False\<rparr>"

definition pollerRun :: "pollerEvent list \<Rightarrow> Poller" where
  "pollerRun events = fold pollerStep events (startEnter newPoller)"

definition startInv :: "Poller \<Rightarrow> bool" where
  "startInv p = (startAwaiting p \<longrightarrow> \<not> pollTimer p \<and> cyclesInFlight p = 1)"

text \<open>Paths of one hop only.\<close>

definition singleHops :: "SigningPath list \<Rightarrow> bool" where
  "singleHops ps = (\<forall>p \<in> set ps. length (hops p) < 2)"

section \<open>Properties of the normalizers\<close>

lemma of_char_toLowerChar:
  "(of_char (toLowerChar c) :: nat) =
     (let n = of_char c :: nat
      in if (65 \<le> n \<and> n \<le> 90) \<or> (192 \<le> n \<and> n \<le> 222 \<and> n \<noteq> 215)
         then n + 32 else n)"
  by (simp add: toLowerChar_def Let_def of_char_of)

lemma toLowerChar_idem: "toLowerChar (toLowerChar c) = toLowerChar c"
proof -
  have "of_char (toLowerChar (toLowerChar c)) = (of_char (toLowerChar c) :: nat)"
    by (simp add: of_char_toLowerChar Let_def)
  then show ?thesis by simp
qed

lemma lowered_toLowerCase: "lowered (toLowerCase s)"
  by (simp add: lowered_def toLowerCase_def toLowerChar_idem)

lemma toLowerCase_lowered: "lowered s \<Longrightarrow> toLowerCase s = s"
  by (simp add: lowered_def toLowerCase_def map_idI)

lemma lowered_subset: "lowered s \<Longrightarrow> set t \<subseteq> set s \<Longrightarrow> lowered t"
  by (auto simp: lowered_def)

lemma set_trimEnd: "set (trimEnd s) \<subseteq> set s"
  using set_dropWhileD [of _ isWhiteSpace "rev s"] by (auto simp: trimEnd_def)

lemma set_trimStart: "set (trimStart s) \<subseteq> set s"
  using set_dropWhileD [of _ isWhiteSpace s] by (auto simp: trimStart_def)

lemma set_trim: "set (trim s) \<subseteq> set s"
  using set_trimEnd [of "trimStart s"] set_trimStart [of s] by (auto simp: trim_def)

lemma trimEnd_last: "trimEnd s \<noteq> [] \<Longrightarrow> \<not> isWhiteSpace (last (trimEnd s))"
proof -
  assume a: "trimEnd s \<noteq> []"
  then have "dropWhile isWhiteSpace (rev s) \<noteq> []" by (simp add: trimEnd_def)
  then have "\<not> isWhiteSpace (hd (dropWhile isWhiteSpace (rev s)))" by (rule hd_dropWhile)
  moreover have "last (trimEnd s) = hd (dropWhile isWhiteSpace (rev s))"
    using a by (simp add: trimEnd_def last_rev)
  ultimately show ?thesis by simp
qed

lemma trimEnd_Cons: "\<not> isWhiteSpace a \<Longrightarrow> trimEnd (a # s) = a # trimEnd s"
  by (simp add: trimEnd_def dropWhile_append)

lemma trimEnd_id: "s = [] \<or> \<not> isWhiteSpace (last s) \<Longrightarrow> trimEnd s = s"
proof (cases "s = []")
  case True then show ?thesis by (simp add: trimEnd_def)
next
  case False
  assume "s = [] \<or> \<not> isWhiteSpace (last s)"
  with False have "\<not> isWhiteSpace (hd (rev s))" by (simp add: hd_rev)
  with False have "dropWhile isWhiteSpace (rev s) = rev s"
    by (cases "rev s") auto
  then show ?thesis by (simp add: trimEnd_def)
qed

lemma trimStart_id: "s = [] \<or> \<not> isWhiteSpace (hd s) \<Longrightarrow> trimStart s = s"
  by (cases s) (auto simp: trimStart_def)

lemma trim_id: "trimmed s \<Longrightarrow> trim s = s"
  by (auto simp: trimmed_def trim_def trimStart_id trimEnd_id)

lemma trimStart_hd: "trimStart s \<noteq> [] \<Longrightarrow> \<not> isWhiteSpace (hd (trimStart s))"
  unfolding trimStart_def by (rule hd_dropWhile)

lemma trimmed_trim: "trimmed (trim s)"
proof (cases "trimStart s")
  case Nil
  then show ?thesis by (simp add: trim_def trimmed_def trimEnd_def)
next
  case (Cons a t)
  then have na: "\<not> isWhiteSpace a" using trimStart_hd [of s] by simp
  have "trim s = a # trimEnd t" using Cons na by (simp add: trim_def trimEnd_Cons)
  moreover have "\<not> isWhiteSpace (last (trim s))"
    using trimEnd_last [of "trimStart s"] calculation by (simp add: trim_def)
  ultimately show ?thesis using na by (simp add: trimmed_def)
qed

lemma startsWith_1: "startsWith s [c] = (s \<noteq> [] \<and> hd s = c)"
  by (cases s) (auto simp: startsWith_def)

lemma cutAt_takeWhile:
  assumes "s = [] \<or> hd s \<noteq> c"
  shows "cutAt s c = takeWhile (\<lambda>x. x \<noteq> c) s"
proof (cases "c \<in> set s")
  case True
  have "take (length (takeWhile (\<lambda>x. x \<noteq> c) s)) s = takeWhile (\<lambda>x. x \<noteq> c) s"
    by (simp add: takeWhile_eq_take [symmetric])
  moreover from True assms have "0 < length (takeWhile (\<lambda>x. x \<noteq> c) s)"
    by (cases s) auto
  ultimately show ?thesis using True by (simp add: cutAt_def indexOf_def substringTo_def)
next
  case False
  then have tw: "takeWhile (\<lambda>x. x \<noteq> c) s = s"
    by (intro takeWhile_eq_all_conv [THEN iffD2]) auto
  show ?thesis using False by (simp add: cutAt_def indexOf_def tw)
qed

lemma normalizeHash_cutAt:
  "x \<noteq> [] \<Longrightarrow>
     normalizeHash x = trim (cutAt (cutAt (stripHashPrefixes x) CHR ''@'') CHR ''/'')"
  by (simp add: normalizeHash_def stripHashPrefixes_def Let_def substring_def cutAt_def)

lemma trim_Nil: "trim [] = []"
  by (simp add: trim_def trimStart_def trimEnd_def)

lemma stripHashPrefixes_Nil: "stripHashPrefixes [] = []"
  by (simp add: stripHashPrefixes_def trim_Nil toLowerCase_def startsWith_def)

lemma normalizeHash_spec_ok:
  assumes "\<not> startsWith (stripHashPrefixes x) ''@''" "\<not> startsWith (stripHashPrefixes x) ''/''"
  shows "normalizeHash x = trim (normalizeHash_spec x)"
proof (cases "x = []")
  case True
  then show ?thesis
    by (simp add: normalizeHash_def normalizeHash_spec_def stripHashPrefixes_Nil trim_Nil)
next
  case False
  define s where "s = stripHashPrefixes x"
  from assms have h: "s = [] \<or> (hd s \<noteq> CHR ''@'' \<and> hd s \<noteq> CHR ''/'')"
    by (auto simp: startsWith_1 s_def)
  then have c1: "cutAt s CHR ''@'' = takeWhile (\<lambda>x. x \<noteq> CHR ''@'') s"
    by (intro cutAt_takeWhile) auto
  define t where "t = takeWhile (\<lambda>x. x \<noteq> CHR ''@'') s"
  from h have "t = [] \<or> hd t \<noteq> CHR ''/''" by (cases s) (auto simp: t_def)
  then have c2: "cutAt t CHR ''/'' = takeWhile (\<lambda>x. x \<noteq> CHR ''/'') t"
    by (rule cutAt_takeWhile)
  have "normalizeHash x = trim (takeWhile (\<lambda>x. x \<noteq> CHR ''/'') t)"
  proof -
    have "normalizeHash x = trim (cutAt (cutAt s CHR ''@'') CHR ''/'')"
      using False by (simp add: normalizeHash_cutAt s_def)
    also have "cutAt s CHR ''@'' = t" by (simp add: c1 t_def)
    also note c2
    finally show ?thesis .
  qed
  also have "takeWhile (\<lambda>x. x \<noteq> CHR ''/'') t = normalizeHash_spec x"
    by (simp add: t_def takeWhile_takeWhile normalizeHash_spec_def s_def)
  finally show ?thesis .
qed

lemma indexOf_atHeadOnly: "atHeadOnly c s \<Longrightarrow> \<not> indexOf s c > 0"
  by (cases s) (auto simp: atHeadOnly_def indexOf_def)

lemma cutAt_atHeadOnly_same: "atHeadOnly c (cutAt s c)"
proof (cases "indexOf s c > 0")
  case True
  then have cs: "c \<in> set s" by (auto simp: indexOf_def split: if_splits)
  then have "cutAt s c = takeWhile (\<lambda>x. x \<noteq> c) s"
    using True by (simp add: cutAt_def indexOf_def substringTo_def takeWhile_eq_take [symmetric])
  moreover have "c \<notin> set (takeWhile (\<lambda>x. x \<noteq> c) s)"
    using set_takeWhileD by fastforce
  ultimately show ?thesis by (simp add: atHeadOnly_def)
next
  case False
  then have "c \<in> set s \<longrightarrow> hd s = c"
    by (cases s) (auto simp: indexOf_def split: if_splits)
  with False show ?thesis by (simp add: cutAt_def atHeadOnly_def)
qed

lemma cutAt_atHeadOnly_other: "atHeadOnly c s \<Longrightarrow> atHeadOnly c (cutAt s d)"
proof (cases "indexOf s d > 0")
  case True
  assume a: "atHeadOnly c s"
  from True have c: "cutAt s d = take (nat (indexOf s d)) s" "0 < nat (indexOf s d)"
    by (simp_all add: cutAt_def substringTo_def)
  show ?thesis
  proof (cases s)
    case Nil
    with c(1) have "cutAt s d = []" by simp
    then show ?thesis by (simp add: atHeadOnly_def)
  next
    case (Cons a' t)
    from c(2) obtain k where k: "nat (indexOf s d) = Suc k" by (cases "nat (indexOf s d)") auto
    have "set (take (Suc k) s) \<subseteq> set s" by (rule set_take_subset)
    with a Cons show ?thesis unfolding c(1) k atHeadOnly_def by auto
  qed
next
  case False
  assume "atHeadOnly c s"
  with False show ?thesis by (simp add: cutAt_def)
qed

lemma trim_atHeadOnly:
  assumes "atHeadOnly c s" "\<not> isWhiteSpace c"
  shows "atHeadOnly c (trim s)"
proof (cases "c \<in> set (trim s)")
  case False then show ?thesis by (simp add: atHeadOnly_def)
next
  case True
  then have "c \<in> set s" using set_trim by blast
  with assms obtain t where s: "s = c # t" by (cases s) (auto simp: atHeadOnly_def)
  with assms(2) have "trim s = c # trimEnd t"
    by (simp add: trim_def trimStart_def trimEnd_Cons)
  then show ?thesis by (simp add: atHeadOnly_def)
qed

lemma set_cutAt: "set (cutAt s c) \<subseteq> set s"
  by (auto simp: cutAt_def substringTo_def dest: in_set_takeD)

lemma set_stripHashPrefixes: "set (stripHashPrefixes x) \<subseteq> set (toLowerCase (trim x))"
proof -
  have "\<And>n s. set (drop n s) \<subseteq> set (s::string)" by (rule set_drop_subset)
  then show ?thesis unfolding stripHashPrefixes_def Let_def
    by (smt (verit) order.trans order_refl)
qed

lemma normalizeHash_shape:
  "lowered (normalizeHash x) \<and> trimmed (normalizeHash x)
   \<and> atHeadOnly CHR ''@'' (normalizeHash x) \<and> atHeadOnly CHR ''/'' (normalizeHash x)"
proof (cases "x = []")
  case True
  then show ?thesis by (simp add: normalizeHash_def lowered_def trimmed_def atHeadOnly_def)
next
  case False
  define n2 where "n2 = stripHashPrefixes x"
  define n4 where "n4 = cutAt (cutAt n2 CHR ''@'') CHR ''/''"
  have r: "normalizeHash x = trim n4" using False by (simp add: normalizeHash_cutAt n4_def n2_def)
  have "set (trim n4) \<subseteq> set (toLowerCase (trim x))"
    using set_trim [of n4] set_cutAt [of "cutAt n2 CHR ''@''" "CHR ''/''"]
      set_cutAt [of n2 "CHR ''@''"] set_stripHashPrefixes [of x]
    by (auto simp: n4_def n2_def)
  then have 1: "lowered (trim n4)" using lowered_toLowerCase lowered_subset by blast
  have 2: "trimmed (trim n4)" by (rule trimmed_trim)
  have "atHeadOnly CHR ''@'' n4" unfolding n4_def
    by (intro cutAt_atHeadOnly_other cutAt_atHeadOnly_same)
  then have 3: "atHeadOnly CHR ''@'' (trim n4)"
    by (rule trim_atHeadOnly) (simp add: isWhiteSpace_def)
  have "atHeadOnly CHR ''/'' n4" unfolding n4_def by (rule cutAt_atHeadOnly_same)
  then have 4: "atHeadOnly CHR ''/'' (trim n4)"
    by (rule trim_atHeadOnly) (simp add: isWhiteSpace_def)
  show ?thesis using 1 2 3 4 r by simp
qed

lemma normalizeHash_fixed:
  assumes "lowered r" "trimmed r" "atHeadOnly CHR ''@'' r" "atHeadOnly CHR ''/'' r"
    "\<not> startsWith r ''0x''"
  shows "normalizeHash r = r"
proof (cases "r = []")
  case True then show ?thesis by (simp add: normalizeHash_def)
next
  case False
  have n0: "toLowerCase (trim r) = r" using assms(1,2) by (simp add: trim_id toLowerCase_lowered)
  have nacc: "\<not> startsWith r ''acc://''"
  proof
    assume "startsWith r ''acc://''"
    then have "take (length ''acc://'') r = ''acc://''" unfolding startsWith_def .
    then obtain t where "r = ''acc://'' @ t" by (metis append_take_drop_id)
    with assms(4) show False by (simp add: atHeadOnly_def)
  qed
  have "stripHashPrefixes r = r" using n0 nacc assms(5) by (simp add: stripHashPrefixes_def Let_def)
  moreover have "cutAt r CHR ''@'' = r" using indexOf_atHeadOnly [OF assms(3)] by (simp add: cutAt_def)
  moreover have "cutAt r CHR ''/'' = r" using indexOf_atHeadOnly [OF assms(4)] by (simp add: cutAt_def)
  ultimately show ?thesis using False assms(2) by (simp add: normalizeHash_cutAt trim_id)
qed

lemma normalizeHash_idem:
  "\<not> startsWith (normalizeHash x) ''0x'' \<Longrightarrow> normalizeHash (normalizeHash x) = normalizeHash x"
  using normalizeHash_shape [of x] by (intro normalizeHash_fixed) auto

lemma length_trimEnd: "length (trimEnd s) \<le> length s"
  using length_dropWhile_le [of isWhiteSpace "rev s"] by (simp add: trimEnd_def)

lemma length_trim: "length (trim s) \<le> length s"
proof -
  have "length (trimEnd (trimStart s)) \<le> length (trimStart s)" by (rule length_trimEnd)
  also have "\<dots> \<le> length s" by (simp add: trimStart_def length_dropWhile_le)
  finally show ?thesis by (simp add: trim_def)
qed

lemma length_cutAt: "length (cutAt s c) \<le> length s"
  by (simp add: cutAt_def substringTo_def)

lemma normalizeHash_0x_shrinks:
  assumes "lowered r" "trimmed r" "startsWith r ''0x''"
  shows "length (normalizeHash r) < length r"
proof -
  from assms(3) have "take (length ''0x'') r = ''0x''" unfolding startsWith_def .
  then obtain t where r: "r = ''0x'' @ t" by (metis append_take_drop_id)
  then have ne: "r \<noteq> []" by simp
  have n0: "toLowerCase (trim r) = r" using assms(1,2) by (simp add: trim_id toLowerCase_lowered)
  have "length (stripHashPrefixes r) \<le> length t"
    unfolding stripHashPrefixes_def Let_def n0 by (simp add: r startsWith_def)
  moreover have "length (normalizeHash r) \<le> length (stripHashPrefixes r)"
    using length_trim [of "cutAt (cutAt (stripHashPrefixes r) CHR ''@'') CHR ''/''"]
      length_cutAt [of "cutAt (stripHashPrefixes r) CHR ''@''" "CHR ''/''"]
      length_cutAt [of "stripHashPrefixes r" "CHR ''@''"] ne
    by (simp add: normalizeHash_cutAt)
  ultimately show ?thesis by (simp add: r)
qed

lemma normalizeHash_idem_iff:
  "normalizeHash (normalizeHash x) = normalizeHash x \<longleftrightarrow> \<not> startsWith (normalizeHash x) ''0x''"
proof
  assume e: "normalizeHash (normalizeHash x) = normalizeHash x"
  show "\<not> startsWith (normalizeHash x) ''0x''"
  proof
    assume "startsWith (normalizeHash x) ''0x''"
    then have "length (normalizeHash (normalizeHash x)) < length (normalizeHash x)"
      using normalizeHash_shape [of x] by (intro normalizeHash_0x_shrinks) auto
    with e show False by simp
  qed
next
  assume "\<not> startsWith (normalizeHash x) ''0x''"
  then show "normalizeHash (normalizeHash x) = normalizeHash x" by (rule normalizeHash_idem)
qed

lemma lowered_acc: "lowered ''acc://''"
  by (simp add: lowered_def toLowerChar_def)

lemma endsWith_1: "endsWith s [c] = (s \<noteq> [] \<and> last s = c)"
proof (cases "s = []")
  case True then show ?thesis by (simp add: endsWith_def)
next
  case False
  then obtain t a where "s = t @ [a]" by (metis append_butlast_last_id)
  then show ?thesis by (auto simp: endsWith_def)
qed

lemma normalizeUrl_n1:
  "\<exists>t. (if \<not> startsWith n0 ''acc://''
        then (if startsWith n0 ''acc:'' then ''acc://'' @ substring n0 4 else ''acc://'' @ n0)
        else n0) = ''acc://'' @ t \<and> set t \<subseteq> set n0"
proof (cases "startsWith n0 ''acc://''")
  case True
  then have "take (length ''acc://'') n0 = ''acc://''" unfolding startsWith_def .
  then have "n0 = ''acc://'' @ drop (length ''acc://'') n0" by (metis append_take_drop_id)
  moreover have "set (drop (length ''acc://'') n0) \<subseteq> set n0" by (rule set_drop_subset)
  ultimately show ?thesis using True by auto
next
  case False
  have "set (drop 4 n0) \<subseteq> set n0" by (rule set_drop_subset)
  with False show ?thesis by (auto simp: substring_def)
qed

lemma normalizeUrl_shape:
  assumes "x \<noteq> []"
  shows "lowered (normalizeUrl x) \<and>
         (normalizeUrl x = ''acc:/'' \<or> (\<exists>t. normalizeUrl x = ''acc://'' @ t))"
proof -
  define n0 where "n0 = trim (toLowerCase x)"
  have l0: "lowered n0" unfolding n0_def
    using lowered_toLowerCase lowered_subset set_trim by blast
  obtain t where t: "(if \<not> startsWith n0 ''acc://''
        then (if startsWith n0 ''acc:'' then ''acc://'' @ substring n0 4 else ''acc://'' @ n0)
        else n0) = ''acc://'' @ t" "set t \<subseteq> set n0"
    using normalizeUrl_n1 [of n0] by blast
  have lt: "lowered t" using l0 t(2) lowered_subset by blast
  have r: "normalizeUrl x = (if endsWith (''acc://'' @ t) ''/'' then butlast (''acc://'' @ t) else ''acc://'' @ t)"
    using assms t(1) by (simp add: normalizeUrl_def Let_def n0_def [symmetric])
  show ?thesis
  proof (cases "t = []")
    case True
    then show ?thesis unfolding r using lowered_acc by (simp add: endsWith_def lowered_def)
  next
    case False
    then have b: "butlast (''acc://'' @ t) = ''acc://'' @ butlast t" by (simp add: butlast_append)
    have lb: "lowered (butlast t)" using lt lowered_subset [of t "butlast t"]
      by (meson in_set_butlastD subsetI)
    have la: "\<And>u. lowered u \<Longrightarrow> lowered (''acc://'' @ u)"
      by (simp add: lowered_def toLowerChar_def)
    show ?thesis
    proof (cases "endsWith (''acc://'' @ t) ''/''")
      case True
      then have "normalizeUrl x = ''acc://'' @ butlast t" using r b by simp
      then show ?thesis using la [OF lb] by auto
    next
      case False
      then have "normalizeUrl x = ''acc://'' @ t" using r by simp
      then show ?thesis using la [OF lt] by auto
    qed
  qed
qed

lemma normalizeUrl_fixed:
  assumes "lowered r" "r = ''acc://'' @ t" "\<not> endsWith r ''/''" "\<not> endsWithWhiteSpace r"
  shows "normalizeUrl r = r"
proof -
  have "trimmed r" using assms(2,4) by (simp add: trimmed_def endsWithWhiteSpace_def isWhiteSpace_def)
  then have "trim (toLowerCase r) = r" using assms(1) by (simp add: toLowerCase_lowered trim_id)
  moreover have "startsWith r ''acc://''" by (simp add: assms(2) startsWith_def)
  ultimately show ?thesis using assms(2,3) by (simp add: normalizeUrl_def Let_def)
qed

lemma normalizeUrl_idem:
  assumes "\<not> endsWith (normalizeUrl x) ''/''" "\<not> endsWithWhiteSpace (normalizeUrl x)"
  shows "normalizeUrl (normalizeUrl x) = normalizeUrl x"
proof (cases "x = []")
  case True then show ?thesis by (simp add: normalizeUrl_def)
next
  case False
  from normalizeUrl_shape [OF False] assms(1)
  obtain t where "normalizeUrl x = ''acc://'' @ t" and "lowered (normalizeUrl x)"
    by (auto simp: endsWith_1)
  then show ?thesis using assms by (intro normalizeUrl_fixed) auto
qed

lemma trimEnd_shrinks:
  assumes "endsWithWhiteSpace t"
  shows "length (trimEnd t) < length t"
proof -
  from assms obtain u a where t: "t = u @ [a]" "isWhiteSpace a"
    unfolding endsWithWhiteSpace_def by (metis append_butlast_last_id)
  have "length (dropWhile isWhiteSpace (rev u)) \<le> length (rev u)" by (rule length_dropWhile_le)
  then show ?thesis using t by (simp add: trimEnd_def)
qed

lemma normalizeUrl_length:
  "r = ''acc://'' @ t \<Longrightarrow> lowered r \<Longrightarrow> length (normalizeUrl r) \<le> length (trim r)"
proof -
  assume r: "r = ''acc://'' @ t" and l: "lowered r"
  have tr: "trim r = ''acc://'' @ trimEnd t"
    by (simp add: r trim_def trimStart_def trimEnd_Cons isWhiteSpace_def)
  then have "startsWith (trim r) ''acc://''" by (simp add: startsWith_def)
  then have "normalizeUrl r = (if endsWith (trim r) ''/'' then butlast (trim r) else trim r)"
    using r l by (simp add: normalizeUrl_def Let_def toLowerCase_lowered)
  then show ?thesis by simp
qed

lemma normalizeUrl_not_fixed:
  assumes "endsWith (normalizeUrl x) ''/'' \<or> endsWithWhiteSpace (normalizeUrl x)"
  shows "normalizeUrl (normalizeUrl x) \<noteq> normalizeUrl x"
proof -
  define r where "r = normalizeUrl x"
  have xne: "x \<noteq> []" using assms by (auto simp: normalizeUrl_def endsWith_def endsWithWhiteSpace_def)
  from normalizeUrl_shape [OF xne] have l: "lowered r"
    and sh: "r = ''acc:/'' \<or> (\<exists>t. r = ''acc://'' @ t)" by (simp_all add: r_def)
  from sh show ?thesis unfolding r_def [symmetric]
  proof
    assume "r = ''acc:/''"
    moreover have "normalizeUrl ''acc:/'' = ''acc://''" by code_simp
    ultimately show "normalizeUrl r \<noteq> r" by simp
  next
    assume "\<exists>t. r = ''acc://'' @ t"
    then obtain t where r: "r = ''acc://'' @ t" by blast
    have tr: "trim r = ''acc://'' @ trimEnd t"
      by (simp add: r trim_def trimStart_def trimEnd_Cons isWhiteSpace_def)
    show "normalizeUrl r \<noteq> r"
    proof (cases "endsWithWhiteSpace r")
      case True
      then have "endsWithWhiteSpace t" by (auto simp: r endsWithWhiteSpace_def isWhiteSpace_def split: if_splits)
      then have "length (trimEnd t) < length t" by (rule trimEnd_shrinks)
      then have "length (''acc://'' @ trimEnd t) < length (''acc://'' @ t)" by simp
      then have "length (trim r) < length (''acc://'' @ t)" by (simp only: tr)
      then have "length (trim r) < length r" by (simp only: r)
      with normalizeUrl_length [OF r l] show ?thesis by auto
    next
      case False
      with assms have e: "endsWith r ''/''" by (simp add: r_def)
      have "trimEnd t = t" using False
        by (intro trimEnd_id) (auto simp: r endsWithWhiteSpace_def split: if_splits)
      then have "trim r = ''acc://'' @ t" using tr by simp
      then have "trim r = r" by (simp only: r)
      moreover have "startsWith r ''acc://''" by (simp add: r startsWith_def)
      ultimately have "normalizeUrl r = butlast r"
        using e l r by (simp add: normalizeUrl_def Let_def toLowerCase_lowered)
      moreover have "butlast r \<noteq> r"
      proof
        assume "butlast r = r"
        then have "length r - 1 = length r" using length_butlast [of r] by simp
        moreover have "0 < length r" by (simp add: r)
        ultimately show False by linarith
      qed
      ultimately show ?thesis by simp
    qed
  qed
qed

lemma normalizeUrl_idem_iff:
  "normalizeUrl (normalizeUrl x) = normalizeUrl x \<longleftrightarrow>
     \<not> endsWith (normalizeUrl x) ''/'' \<and> \<not> endsWithWhiteSpace (normalizeUrl x)"
  using normalizeUrl_not_fixed [of x] normalizeUrl_idem [of x] by blast

subsection \<open>The hash normalizer against the reference definition\<close>

text \<open>
  Claim C6, as the code has it.  \<open>normalizeHash\<close> truncates at \<open>@\<close> and at
  \<open>/\<close> only when the character stands at an index greater than zero, and trims once
  more at the end.  So it equals the reference definition followed by a trim on every
  input whose trimmed, lowercased and prefix-stripped form does not begin with \<open>@\<close> or
  \<open>/\<close>; the transaction-id example of the specification reduces to \<open>abcd\<close>, and
  the empty input to the empty output.
\<close>

theorem normalizeHash_refines_spec:
  "(\<not> startsWith (stripHashPrefixes x) ''@'' \<and> \<not> startsWith (stripHashPrefixes x) ''/''
      \<longrightarrow> normalizeHash x = trim (normalizeHash_spec x))
   \<and> normalizeHash ''0xABCD@acc://x/y'' = ''abcd''
   \<and> normalizeHash [] = []"
proof (intro conjI impI)
  assume "\<not> startsWith (stripHashPrefixes x) ''@'' \<and> \<not> startsWith (stripHashPrefixes x) ''/''"
  then show "normalizeHash x = trim (normalizeHash_spec x)"
    using normalizeHash_spec_ok [of x] by blast
next
  show "normalizeHash ''0xABCD@acc://x/y'' = ''abcd''" by code_simp
next
  show "normalizeHash [] = []" by (simp add: normalizeHash_def)
qed

theorem normalizeHash_refines_spec_witness:
  "\<not> startsWith (stripHashPrefixes ''0xABCD@acc://x/y'') ''@''
   \<and> \<not> startsWith (stripHashPrefixes ''0xABCD@acc://x/y'') ''/''
   \<and> normalizeHash ''0xABCD@acc://x/y'' = trim (normalizeHash_spec ''0xABCD@acc://x/y'')"
proof -
  have h: "\<not> startsWith (stripHashPrefixes ''0xABCD@acc://x/y'') ''@''
           \<and> \<not> startsWith (stripHashPrefixes ''0xABCD@acc://x/y'') ''/''"
    by code_simp
  from normalizeHash_refines_spec [of "''0xABCD@acc://x/y''"] h show ?thesis by blast
qed

text \<open>
  Claim C6 as stated fails: a leading \<open>@\<close> is kept where the reference definition
  truncates to the empty string, and a blank before the cut is trimmed where the
  reference definition keeps it.
\<close>

theorem normalizeHash_spec_counterexample:
  "normalizeHash ''@abc'' \<noteq> normalizeHash_spec ''@abc''
   \<and> normalizeHash ''ab @x'' \<noteq> normalizeHash_spec ''ab @x''"
  by code_simp

subsection \<open>Idempotence of the normalizers\<close>

text \<open>
  Claim C7, as the code has it.  Each normalizer has an exact condition under which
  normalizing a second time changes nothing:
  \<open>normalizeHash (normalizeHash x) = normalizeHash x\<close> if and only if
  \<open>normalizeHash x\<close> does not begin with \<open>0x\<close>, and
  \<open>normalizeUrl (normalizeUrl y) = normalizeUrl y\<close> if and only if \<open>normalizeUrl y\<close>
  ends neither with \<open>/\<close> nor with a whitespace character.
\<close>

theorem normalizers_idempotent_iff:
  "(normalizeHash (normalizeHash x) = normalizeHash x
      \<longleftrightarrow> \<not> startsWith (normalizeHash x) ''0x'')
   \<and> (normalizeUrl (normalizeUrl y) = normalizeUrl y
      \<longleftrightarrow> \<not> endsWith (normalizeUrl y) ''/'' \<and> \<not> endsWithWhiteSpace (normalizeUrl y))"
  using normalizeHash_idem_iff [of x] normalizeUrl_idem_iff [of y] by blast

theorem normalizers_idempotent_iff_witness:
  "normalizeHash (normalizeHash ''0xABCD@acc://x/y'') = normalizeHash ''0xABCD@acc://x/y''
   \<and> normalizeUrl (normalizeUrl ''ACC://FOO.ACME/'') = normalizeUrl ''ACC://FOO.ACME/''"
proof -
  have h1: "\<not> startsWith (normalizeHash ''0xABCD@acc://x/y'') ''0x''" by code_simp
  have h2: "\<not> endsWith (normalizeUrl ''ACC://FOO.ACME/'') ''/''
            \<and> \<not> endsWithWhiteSpace (normalizeUrl ''ACC://FOO.ACME/'')" by code_simp
  from normalizers_idempotent_iff [of "''0xABCD@acc://x/y''" "''ACC://FOO.ACME/''"] h1 h2
  show ?thesis by blast
qed

text \<open>
  Claim C7 as stated fails.  \<open>normalizeHash\<close> removes one \<open>0x\<close> prefix per call:
  \<open>0x0xab\<close> gives \<open>0xab\<close>, then \<open>ab\<close>.  \<open>normalizeUrl\<close> removes one trailing
  slash per call, after its trim: \<open>a//\<close> gives \<open>acc://a/\<close>, then \<open>acc://a\<close>, and
  \<open>a /\<close> gives \<open>acc://a\<close> followed by a blank, then \<open>acc://a\<close>.
\<close>

theorem normalizers_idempotent_counterexample:
  "normalizeHash (normalizeHash ''0x0xab'') \<noteq> normalizeHash ''0x0xab''
   \<and> normalizeUrl (normalizeUrl ''a//'') \<noteq> normalizeUrl ''a//''
   \<and> normalizeUrl (normalizeUrl ''a /'') \<noteq> normalizeUrl ''a /''"
  by code_simp

section \<open>The semaphore invariant\<close>

lemma semInv_new: "0 \<le> n \<Longrightarrow> semInv (newSemaphore n)"
  by (simp add: semInv_def newSemaphore_def)

lemma semInv_acquire: "semInv s \<Longrightarrow> semInv (snd (acquire w s))"
  by (auto simp: semInv_def acquire_def)

lemma semInv_release: "semInv s \<Longrightarrow> semInv (snd (release s))"
  by (cases "waiting s") (auto simp: semInv_def release_def Let_def)

lemma semInv_step: "semInv s \<Longrightarrow> semInv (semStep op s)"
  by (cases op) (simp_all add: semInv_acquire semInv_release)

lemma semInv_fold: "semInv s \<Longrightarrow> semInv (fold semStep ops s)"
  by (induction ops arbitrary: s) (simp_all add: semInv_step)

lemma release_wakes_head:
  "semInv s \<Longrightarrow> waiting s = woken s @ waiting (snd (release s)) \<and> length (woken s) \<le> 1"
  by (cases "waiting s") (auto simp: semInv_def release_def woken_def Let_def)

text \<open>
  Claim C10.  From a construction with \<open>n \<ge> 0\<close> permits, after every finite sequence
  of acquire and release operations the counter is not negative, a non-empty queue
  implies a counter of zero, and a release at that point wakes at most one caller, the
  one at the head of the queue, leaving the others parked in order.
\<close>

theorem semaphore_invariant:
  assumes "0 \<le> n"
  shows "0 \<le> permits (semRun ops (newSemaphore n))
         \<and> (waiting (semRun ops (newSemaphore n)) \<noteq> [] \<longrightarrow> permits (semRun ops (newSemaphore n)) = 0)
         \<and> length (woken (semRun ops (newSemaphore n))) \<le> 1
         \<and> waiting (semRun ops (newSemaphore n))
             = woken (semRun ops (newSemaphore n))
               @ waiting (snd (release (semRun ops (newSemaphore n))))"
proof -
  have inv: "semInv (semRun ops (newSemaphore n))"
    unfolding semRun_def using assms by (intro semInv_fold semInv_new)
  then show ?thesis using release_wakes_head [OF inv] by (simp add: semInv_def)
qed

theorem semaphore_invariant_witness:
  "(0::int) \<le> 1
   \<and> permits (semRun [Acquire (1::nat), Acquire 2, Acquire 3] (newSemaphore 1)) = 0
   \<and> waiting (semRun [Acquire (1::nat), Acquire 2, Acquire 3] (newSemaphore 1)) = [2, 3]
   \<and> woken (semRun [Acquire (1::nat), Acquire 2, Acquire 3] (newSemaphore 1)) = [2]
   \<and> waiting (snd (release (semRun [Acquire (1::nat), Acquire 2, Acquire 3] (newSemaphore 1)))) = [3]"
proof -
  have h: "(0::int) \<le> 1" by simp
  have w: "waiting (semRun [Acquire (1::nat), Acquire 2, Acquire 3] (newSemaphore 1)) = [2, 3]"
    by (simp add: semRun_def newSemaphore_def acquire_def)
  have k: "woken (semRun [Acquire (1::nat), Acquire 2, Acquire 3] (newSemaphore 1)) = [2]"
    by (simp add: semRun_def newSemaphore_def acquire_def woken_def release_def)
  from semaphore_invariant [OF h, of "[Acquire (1::nat), Acquire 2, Acquire 3]"] w k
  show ?thesis by simp
qed

section \<open>The page count of a key book\<close>

text \<open>
  Claim C8 at the input where the code departs from it.  The two first branches of
  \<open>queryKeyBookPageCount\<close> ask for the type \<open>keyBook\<close>; the top-level fallback does
  not (the earlier version of the client, \<open>response.type === 'keyBook'\<close>, did).  A
  response whose account is a token account and that carries a top-level numeric
  \<open>pageCount\<close> yields that number, not 0, and so does a response whose own top-level
  type is not \<open>keyBook\<close>.
\<close>

theorem queryKeyBookPageCount_fallback_ignores_type:
  "queryKeyBookPageCount
     (\<lambda>scope. Inr (JObj [(''account'', JObj [(''type'', JStr ''tokenAccount'')]),
                          (''pageCount'', JNum 3)]))
     ''acc://alice.acme/tokens'' = 3
   \<and> queryKeyBookPageCount
     (\<lambda>scope. Inr (JObj [(''type'', JStr ''tokenAccount''), (''pageCount'', JNum 3)]))
     ''acc://alice.acme/tokens'' = 3"
  by (simp add: queryKeyBookPageCount_def)

section \<open>Properties of the signing-path explorer\<close>

text \<open>
  Every recursive call lowers \<open>maxDepth + 1 - depth\<close>, so every argument lies in the
  accessible part of the call relation.
\<close>

lemma followDelegationChain_rel_measure:
  "followDelegationChain_rel y x \<Longrightarrow>
     (y, x) \<in> measure (\<lambda>(L, maxDepth, sourceUrl, targetUrl, currentPath, st, depth).
                  nat (maxDepth + 1 - int depth))"
  by (erule followDelegationChain_rel.cases) auto

lemma followDelegationChain_dom_all:
  "\<forall>x. followDelegationChain_dom x"
proof
  fix x
  define m where "m = (\<lambda>(L :: Ledger, maxDepth :: int, sourceUrl :: string, targetUrl :: string,
                         currentPath :: string list, st :: string set \<times> SigningPath list, depth :: nat).
                  nat (maxDepth + 1 - int depth))"
  have "wf (measure m)" by simp
  then show "followDelegationChain_dom x"
  proof (induction x rule: wf_induct_rule)
    case (less x)
    show ?case
    proof (rule accpI)
      fix y assume "followDelegationChain_rel y x"
      then have "(y, x) \<in> measure m" unfolding m_def by (rule followDelegationChain_rel_measure)
      then show "followDelegationChain_dom y" by (rule less.IH)
    qed
  qed
qed

lemma dfsPost_refl: "dfsPost B st st"
  by (simp add: dfsPost_def)

lemma dfsPost_trans:
  assumes "dfsPost B a b" "dfsPost B b c"
  shows "dfsPost B a c"
proof -
  from assms(1) obtain n1 where 1: "fst a \<subseteq> fst b" "fst b \<subseteq> fst a \<union> B" "snd b = snd a @ n1"
    "distinct (map finalSigner n1)" "finalSigner ` set n1 \<subseteq> fst b - fst a"
    unfolding dfsPost_def by blast
  from assms(2) obtain n2 where 2: "fst b \<subseteq> fst c" "fst c \<subseteq> fst b \<union> B" "snd c = snd b @ n2"
    "distinct (map finalSigner n2)" "finalSigner ` set n2 \<subseteq> fst c - fst b"
    unfolding dfsPost_def by blast
  have "snd c = snd a @ (n1 @ n2)" using 1(3) 2(3) by simp
  moreover have "distinct (map finalSigner (n1 @ n2))" using 1(4,5) 2(4,5) by auto
  moreover have "finalSigner ` set (n1 @ n2) \<subseteq> fst c - fst a" using 1(1,5) 2(1,5) by auto
  moreover have "fst a \<subseteq> fst c" "fst c \<subseteq> fst a \<union> B" using 1(1,2) 2(1,2) by auto
  ultimately show ?thesis unfolding dfsPost_def by blast
qed

lemma dfsPost_mono: "dfsPost A st r \<Longrightarrow> A \<subseteq> B \<Longrightarrow> dfsPost B st r"
  unfolding dfsPost_def by blast

lemma dfsPost_fold:
  assumes "\<And>d st. d \<in> set ds \<Longrightarrow> dfsPost B st (f d st)"
  shows "dfsPost B st (fold f ds st)"
  using assms
proof (induction ds arbitrary: st)
  case Nil
  then show ?case by (simp add: dfsPost_refl)
next
  case (Cons d ds)
  have "dfsPost B st (f d st)" using Cons.prems by simp
  moreover have "dfsPost B (f d st) (fold f ds (f d st))" using Cons by simp
  ultimately show ?case using dfsPost_trans by fastforce
qed

lemma normalized_delegate_target:
  "queryKeyPage L u = Some kp \<Longrightarrow> d \<in> set (newDelegates kp) \<Longrightarrow> normalizeUrl d \<in> delegateTargets L"
  unfolding delegateTargets_def by blast

lemma followDelegationChain_post:
  "dfsPost (insert (normalizeUrl t) (delegateTargets L)) st
     (followDelegationChain L md s t cp st d)"
proof (induction L md s t cp st d rule: followDelegationChain.induct)
  case (1 L maxDepth sourceUrl targetUrl currentPath st depth)
  define nt where "nt = normalizeUrl targetUrl"
  define B where "B = insert nt (delegateTargets L)"
  show ?case
  proof (cases "nt \<in> fst st \<or> int depth > maxDepth")
    case True
    then show ?thesis
      by (subst followDelegationChain.simps) (simp add: nt_def [symmetric] dfsPost_refl)
  next
    case False
    define st1 where "st1 = (insert nt (fst st), snd st)"
    have p1: "dfsPost B st st1" using False
      by (auto simp: dfsPost_def st1_def B_def)
    show ?thesis
    proof (cases "accountExists L nt")
      case ae: False
      then have "followDelegationChain L maxDepth sourceUrl targetUrl currentPath st depth = st1"
        using False
        by (subst followDelegationChain.simps) (simp add: nt_def [symmetric] st1_def)
      then show ?thesis using p1 by (simp add: B_def nt_def)
    next
      case ae: True
      define newPath where "newPath = currentPath @ [nt]"
      define st2 where "st2 = (insert nt (fst st), snd st @ [mkSigningPath newPath nt])"
      have p2: "dfsPost B st st2" using False
        unfolding dfsPost_def st2_def B_def
        by (auto simp: mkSigningPath_def intro!: exI [of _ "[mkSigningPath newPath nt]"])
      show ?thesis
      proof (cases "queryKeyPage L nt")
        case None
        then have "followDelegationChain L maxDepth sourceUrl targetUrl currentPath st depth = st2"
          using False ae
          by (subst followDelegationChain.simps)
             (simp add: nt_def [symmetric] st2_def newPath_def Let_def)
        then show ?thesis using p2 by (simp add: B_def nt_def)
      next
        case (Some kp)
        have e: "followDelegationChain L maxDepth sourceUrl targetUrl currentPath st depth
          = fold (\<lambda>delegate st'. followDelegationChain L maxDepth nt delegate newPath st' (depth + 1))
              (newDelegates kp) st2"
          using False ae Some
          by (subst followDelegationChain.simps)
             (simp add: nt_def [symmetric] st2_def newPath_def Let_def)
        have "dfsPost B st2 (fold (\<lambda>delegate st'. followDelegationChain L maxDepth nt delegate newPath st' (depth + 1))
              (newDelegates kp) st2)"
        proof (rule dfsPost_fold)
          fix dd st'
          assume dd: "dd \<in> set (newDelegates kp)"
          have "dfsPost (insert (normalizeUrl dd) (delegateTargets L)) st'
                  (followDelegationChain L maxDepth nt dd newPath st' (depth + 1))"
            using "1.IH" [OF nt_def False _ _ newPath_def _ Some dd, of "insert nt (fst st)" "snd st @ [mkSigningPath newPath nt]" st']
              ae by simp
          moreover have "normalizeUrl dd \<in> delegateTargets L"
            using normalized_delegate_target [OF Some dd] .
          ultimately show "dfsPost B st' (followDelegationChain L maxDepth nt dd newPath st' (depth + 1))"
            by (auto intro: dfsPost_mono simp: B_def)
        qed
        with p2 have "dfsPost B st (followDelegationChain L maxDepth sourceUrl targetUrl currentPath st depth)"
          unfolding e by (rule dfsPost_trans)
        then show ?thesis by (simp add: B_def nt_def)
      qed
    qed
  qed
qed


lemma fold_invariant:
  assumes "\<And>x st. x \<in> set xs \<Longrightarrow> I st \<Longrightarrow> I (f x st)" "I st"
  shows "I (fold f xs st)"
  using assms by (induction xs arbitrary: st) auto

lemma followDelegationChain_visited_mono:
  "fst st \<subseteq> fst (followDelegationChain L md s t cp st d)"
  using followDelegationChain_post [of t L st md s cp d] by (simp add: dfsPost_def)

lemma pathOk_new:
  assumes "cp \<noteq> []" "length cp = d" "distinct (tl cp)" "set (tl cp) \<subseteq> V" "nt \<notin> V" "int d \<le> md"
  shows "pathOk md (mkSigningPath (cp @ [nt]) nt)"
  using assms by (auto simp: pathOk_def mkSigningPath_def)

lemma followDelegationChain_pathOk:
  "cp \<noteq> [] \<Longrightarrow> length cp = d \<Longrightarrow> distinct (tl cp) \<Longrightarrow> set (tl cp) \<subseteq> fst st
   \<Longrightarrow> \<forall>p\<in>set (snd st). pathOk md p
   \<Longrightarrow> \<forall>p\<in>set (snd (followDelegationChain L md s t cp st d)). pathOk md p"
proof (induction L md s t cp st d rule: followDelegationChain.induct)
  case (1 L maxDepth sourceUrl targetUrl currentPath st depth)
  define nt where "nt = normalizeUrl targetUrl"
  show ?case
  proof (cases "nt \<in> fst st \<or> int depth > maxDepth")
    case True
    then show ?thesis using "1.prems"(5)
      by (subst followDelegationChain.simps) (simp add: nt_def [symmetric])
  next
    case False
    define newPath where "newPath = currentPath @ [nt]"
    define st2 where "st2 = (insert nt (fst st), snd st @ [mkSigningPath newPath nt])"
    have ok: "pathOk maxDepth (mkSigningPath newPath nt)"
      unfolding newPath_def using "1.prems"(1-4) False by (intro pathOk_new [where V = "fst st"]) auto
    have np: "newPath \<noteq> []" "length newPath = depth + 1" "distinct (tl newPath)"
      "set (tl newPath) \<subseteq> insert nt (fst st)"
      using "1.prems"(1-4) False by (auto simp: newPath_def)
    show ?thesis
    proof (cases "accountExists L nt")
      case ae: False
      then show ?thesis using False "1.prems"(5)
        by (subst followDelegationChain.simps) (simp add: nt_def [symmetric])
    next
      case ae: True
      show ?thesis
      proof (cases "queryKeyPage L nt")
        case None
        then have "followDelegationChain L maxDepth sourceUrl targetUrl currentPath st depth = st2"
          using False ae
          by (subst followDelegationChain.simps)
             (simp add: nt_def [symmetric] st2_def newPath_def Let_def)
        then show ?thesis using ok "1.prems"(5) by (auto simp: st2_def)
      next
        case (Some kp)
        define I where "I = (\<lambda>st'. insert nt (fst st) \<subseteq> fst st' \<and> (\<forall>p\<in>set (snd st'). pathOk maxDepth p))"
        have e: "followDelegationChain L maxDepth sourceUrl targetUrl currentPath st depth
          = fold (\<lambda>delegate st'. followDelegationChain L maxDepth nt delegate newPath st' (depth + 1))
              (newDelegates kp) st2"
          using False ae Some
          by (subst followDelegationChain.simps)
             (simp add: nt_def [symmetric] st2_def newPath_def Let_def)
        have "I (fold (\<lambda>delegate st'. followDelegationChain L maxDepth nt delegate newPath st' (depth + 1))
              (newDelegates kp) st2)"
        proof (rule fold_invariant)
          show "I st2" using ok "1.prems"(5) by (auto simp: I_def st2_def)
        next
          fix dd st'
          assume dd: "dd \<in> set (newDelegates kp)" and i: "I st'"
          have sub: "set (tl newPath) \<subseteq> fst st'" using np(4) i by (auto simp: I_def)
          have pre: "\<forall>p\<in>set (snd st'). pathOk maxDepth p" using i by (simp add: I_def)
          have "\<forall>p\<in>set (snd (followDelegationChain L maxDepth nt dd newPath st' (depth + 1))). pathOk maxDepth p"
            using "1.IH" [OF nt_def False _ _ newPath_def _ Some dd np(1) np(2) np(3) sub pre,
                of "insert nt (fst st)" "snd st @ [mkSigningPath newPath nt]"] ae
            by simp
          moreover have "fst st' \<subseteq> fst (followDelegationChain L maxDepth nt dd newPath st' (depth + 1))"
            by (rule followDelegationChain_visited_mono)
          ultimately show "I (followDelegationChain L maxDepth nt dd newPath st' (depth + 1))"
            using i by (auto simp: I_def)
        qed
        then show ?thesis unfolding e by (simp add: I_def)
      qed
    qed
  qed
qed



lemma pathOk_direct: "0 \<le> md \<Longrightarrow> pathOk md (mkSigningPath [page] page)"
  by (simp add: pathOk_def mkSigningPath_def)

lemma followDelegates_pathsOk:
  assumes "pathsOk md e"
  shows "pathsOk md (followDelegates L md page ds e)"
proof -
  have "\<forall>p\<in>set (snd (fold (\<lambda>delegateUrl st. followDelegationChain L md page delegateUrl [page] st 1)
                ds (visited e, paths e))). pathOk md p"
  proof (rule fold_invariant [where I = "\<lambda>st. \<forall>p\<in>set (snd st). pathOk md p"])
    show "\<forall>p\<in>set (snd (visited e, paths e)). pathOk md p" using assms by (simp add: pathsOk_def)
  next
    fix x and st :: "string set \<times> SigningPath list"
    assume "\<forall>p\<in>set (snd st). pathOk md p"
    then show "\<forall>p\<in>set (snd (followDelegationChain L md page x [page] st 1)). pathOk md p"
      by (intro followDelegationChain_pathOk) auto
  qed
  then show ?thesis by (simp add: followDelegates_def Let_def pathsOk_def)
qed

lemma storedPageStep_pathsOk:
  assumes "0 \<le> md" "pathsOk md e"
  shows "pathsOk md (storedPageStep L md kp e)"
proof -
  have "pathsOk md (e\<lparr>processedPages := insert page (processedPages e),
                   paths := paths e @ [mkSigningPath [page] page]\<rparr>)" for page
    using assms pathOk_direct [OF assms(1)] by (auto simp: pathsOk_def)
  then show ?thesis using assms(2)
    by (simp add: storedPageStep_def Let_def followDelegates_pathsOk)
qed

lemma livePageStep_pathsOk:
  assumes "0 \<le> md" "pathsOk md (fst acc)"
  shows "pathsOk md (fst (livePageStep L md book i acc))"
proof -
  have "pathsOk md ((fst acc)\<lparr>processedPages := insert page (processedPages (fst acc)),
                   paths := paths (fst acc) @ [mkSigningPath [page] page]\<rparr>)" for page
    using assms pathOk_direct [OF assms(1)] by (auto simp: pathsOk_def)
  then show ?thesis using assms(2)
    by (auto simp: livePageStep_def Let_def followDelegates_pathsOk split: option.splits)
qed

lemma liveBookStep_pathsOk:
  assumes "0 \<le> md" "pathsOk md (fst acc)"
  shows "pathsOk md (fst (liveBookStep L md book acc))"
proof -
  have "pathsOk md (fst (fold (livePageStep L md book) is (fst acc, ps)))" for "is" ps
  proof (rule fold_invariant [where I = "\<lambda>a. pathsOk md (fst a)"])
    show "pathsOk md (fst (fst acc, ps))" using assms(2) by simp
  next
    fix x and st :: "explorer \<times> CertenKeyPage list" assume "pathsOk md (fst st)"
    then show "pathsOk md (fst (livePageStep L md book x st))" using assms(1) by (rule livePageStep_pathsOk [rotated])
  qed
  then show ?thesis using assms(2) by (simp add: liveBookStep_def Let_def)
qed

lemma discoverSigningPaths_pathOk:
  assumes "0 \<le> md" "p \<in> set (resultPaths (discoverSigningPaths L md adi))"
  shows "pathOk md p"
proof -
  define e1 where "e1 = fold (storedPageStep L md) (concat (map bookKeyPages (keyBooks adi)))
                          \<lparr>paths = [], visited = {}, processedPages = {}\<rparr>"
  have 1: "pathsOk md e1" unfolding e1_def
  proof (rule fold_invariant [where I = "pathsOk md"])
    show "pathsOk md \<lparr>paths = [], visited = {}, processedPages = {}\<rparr>" by (simp add: pathsOk_def)
  next
    fix x st assume "pathsOk md st"
    then show "pathsOk md (storedPageStep L md x st)" using assms(1) by (rule storedPageStep_pathsOk [rotated])
  qed
  have "pathsOk md (fst (fold (liveBookStep L md) bs (e1, [])))" for bs
  proof (rule fold_invariant [where I = "\<lambda>a. pathsOk md (fst a)"])
    show "pathsOk md (fst (e1, []))" using 1 by simp
  next
    fix x and st :: "explorer \<times> CertenKeyBook list" assume "pathsOk md (fst st)"
    then show "pathsOk md (fst (liveBookStep L md x st))" using assms(1) by (rule liveBookStep_pathsOk [rotated])
  qed
  then show ?thesis using assms(2)
    by (simp add: discoverSigningPaths_def Let_def e1_def [symmetric] pathsOk_def)
qed

subsection \<open>Signing paths: length and repeated hops\<close>

lemma count_list_distinct: "distinct xs \<Longrightarrow> count_list xs u \<le> 1"
  by (induction xs) auto

lemma count_list_hd_tl:
  assumes "xs \<noteq> []" "distinct (tl xs)"
  shows "count_list xs u \<le> (if u = hd xs then 2 else 1)"
proof -
  from assms(1) obtain x ys where xs: "xs = x # ys" by (cases xs) auto
  with assms(2) have "distinct ys" by simp
  then have "count_list ys u \<le> 1" by (rule count_list_distinct)
  then show ?thesis by (auto simp: xs)
qed

text \<open>
  Claim C2, as the code has it.  For a depth cap of at least 0, every signing path the
  explorer returns has between 1 and \<open>maxDepth + 1\<close> hops, ends at its final signer,
  and its hops after the first are pairwise distinct.  So no URL occurs more than twice
  among the hops of a path, and only the URL of the first hop can occur twice.
\<close>

theorem signing_path_hops_bounded:
  assumes "0 \<le> maxDepth"
    and "p \<in> set (resultPaths (discoverSigningPaths L maxDepth adi))"
  shows "int (length (hops p)) \<le> maxDepth + 1 \<and> distinct (tl (hops p))
         \<and> hops p \<noteq> [] \<and> finalSigner p = last (hops p)
         \<and> (\<forall>u. count_list (hops p) u \<le> (if u = hd (hops p) then 2 else 1))"
proof -
  from discoverSigningPaths_pathOk [OF assms]
  have ok: "int (length (hops p)) \<le> maxDepth + 1" "distinct (tl (hops p))"
    "hops p \<noteq> []" "finalSigner p = last (hops p)"
    by (simp_all add: pathOk_def)
  from ok(3,2) have "count_list (hops p) u \<le> (if u = hd (hops p) then 2 else 1)" for u
    by (rule count_list_hd_tl)
  with ok show ?thesis by blast
qed

theorem signing_path_hops_bounded_witness:
  "(0::int) \<le> 10
   \<and> mkSigningPath [''acc://a.acme/book/1'', ''acc://b.acme/book/1'', ''acc://a.acme/book/1'']
         ''acc://a.acme/book/1''
       \<in> set (resultPaths (discoverSigningPaths cycleLedger 10 cycleAdi))
   \<and> int (length (hops (mkSigningPath
         [''acc://a.acme/book/1'', ''acc://b.acme/book/1'', ''acc://a.acme/book/1'']
         ''acc://a.acme/book/1''))) \<le> 10 + 1
   \<and> distinct (tl (hops (mkSigningPath
         [''acc://a.acme/book/1'', ''acc://b.acme/book/1'', ''acc://a.acme/book/1'']
         ''acc://a.acme/book/1'')))
   \<and> count_list (hops (mkSigningPath
         [''acc://a.acme/book/1'', ''acc://b.acme/book/1'', ''acc://a.acme/book/1'']
         ''acc://a.acme/book/1'')) ''acc://a.acme/book/1'' = 2"
proof -
  define P where "P = mkSigningPath
         [''acc://a.acme/book/1'', ''acc://b.acme/book/1'', ''acc://a.acme/book/1'']
         ''acc://a.acme/book/1''"
  have h1: "(0::int) \<le> 10" by simp
  have h2: "P \<in> set (resultPaths (discoverSigningPaths cycleLedger 10 cycleAdi))"
    unfolding P_def by code_simp
  have h3: "count_list (hops P) ''acc://a.acme/book/1'' = 2"
    unfolding P_def by code_simp
  from signing_path_hops_bounded [OF h1 h2]
  have "int (length (hops P)) \<le> 10 + 1" "distinct (tl (hops P))" by blast+
  with h1 h2 h3 show ?thesis unfolding P_def by blast
qed

text \<open>
  Claim C2 as stated fails on the delegation cycle.  The search that starts at the
  user's page \<open>a\<close> has not entered \<open>a\<close> in \<open>visited\<close> when it follows the
  delegation of \<open>b\<close> back to \<open>a\<close>, so the third path the explorer returns is
  \<open>a \<rightarrow> b \<rightarrow> a\<close>, with the user's page twice.  And a negative depth cap, which
  the configuration accepts, does not bound the direct paths: with a cap of \<open>-1\<close> the
  first path still has one hop.
\<close>

theorem signing_path_hops_counterexample:
  "hops (resultPaths (discoverSigningPaths cycleLedger 10 cycleAdi) ! 2)
     = [''acc://a.acme/book/1'', ''acc://b.acme/book/1'', ''acc://a.acme/book/1'']
   \<and> \<not> distinct (hops (resultPaths (discoverSigningPaths cycleLedger 10 cycleAdi) ! 2))
   \<and> \<not> int (length (hops (resultPaths (discoverSigningPaths cycleLedger (- 1) cycleAdi) ! 0)))
         \<le> - 1 + 1"
  by code_simp

subsection \<open>Termination of the search\<close>

text \<open>
  Claim C9.  The recursion of \<open>followDelegationChain\<close> is well-founded at every call,
  on every ledger, cyclic or not.  A call whose target is already visited, or whose depth
  exceeds the cap, returns its state unchanged; every other call enters its target in
  \<open>visited\<close>, which grows strictly.  \<open>visited\<close> never shrinks and gains only the
  target and URLs that key pages of the ledger delegate to.  Each URL is entered at most
  once: the paths a call appends end at pairwise different URLs, all of them new in
  \<open>visited\<close>.
\<close>

theorem followDelegationChain_terminates:
  "followDelegationChain_dom (L, maxDepth, source, target, currentPath, (V, R), depth)
   \<and> (normalizeUrl target \<in> V \<or> int depth > maxDepth
        \<longrightarrow> followDelegationChain L maxDepth source target currentPath (V, R) depth = (V, R))
   \<and> (normalizeUrl target \<notin> V \<and> int depth \<le> maxDepth
        \<longrightarrow> normalizeUrl target
              \<in> fst (followDelegationChain L maxDepth source target currentPath (V, R) depth)
            \<and> V \<subset> fst (followDelegationChain L maxDepth source target currentPath (V, R) depth))
   \<and> V \<subseteq> fst (followDelegationChain L maxDepth source target currentPath (V, R) depth)
   \<and> fst (followDelegationChain L maxDepth source target currentPath (V, R) depth)
        \<subseteq> V \<union> insert (normalizeUrl target) (delegateTargets L)
   \<and> (\<exists>new. snd (followDelegationChain L maxDepth source target currentPath (V, R) depth) = R @ new
         \<and> distinct (map finalSigner new)
         \<and> finalSigner ` set new
             \<subseteq> fst (followDelegationChain L maxDepth source target currentPath (V, R) depth) - V)"
proof -
  define r where "r = followDelegationChain L maxDepth source target currentPath (V, R) depth"
  have dom: "followDelegationChain_dom (L, maxDepth, source, target, currentPath, (V, R), depth)"
    using followDelegationChain_dom_all by blast
  have post: "dfsPost (insert (normalizeUrl target) (delegateTargets L)) (V, R) r"
    unfolding r_def by (rule followDelegationChain_post)
  have stop: "normalizeUrl target \<in> V \<or> int depth > maxDepth \<Longrightarrow> r = (V, R)"
    unfolding r_def by (subst followDelegationChain.simps) (simp add: Let_def)
  have go: "normalizeUrl target \<in> fst r" if "normalizeUrl target \<notin> V" "int depth \<le> maxDepth"
  proof -
    define nt where "nt = normalizeUrl target"
    have m: "nt \<in> fst (fold (\<lambda>delegate st'.
        followDelegationChain L maxDepth a delegate cp st' k) ds st)"
      if "nt \<in> fst st" for ds st a cp k
    proof (rule fold_invariant [where I = "\<lambda>st. nt \<in> fst st"])
      fix x and st' :: "string set \<times> SigningPath list"
      assume "nt \<in> fst st'"
      then show "nt \<in> fst (followDelegationChain L maxDepth a x cp st' k)"
        using followDelegationChain_visited_mono by blast
    qed (rule that)
    show ?thesis unfolding r_def using that
      by (subst followDelegationChain.simps)
         (auto simp: Let_def nt_def [symmetric] m split: option.splits)
  qed
  show ?thesis
    unfolding r_def [symmetric] using dom post stop go
    by (auto simp: dfsPost_def r_def [symmetric])
qed

theorem followDelegationChain_terminates_witness:
  "normalizeUrl ''acc://b.acme/book/1'' \<notin> {} \<and> int 1 \<le> 10
   \<and> normalizeUrl ''acc://b.acme/book/1''
       \<in> fst (followDelegationChain cycleLedger 10 ''acc://a.acme/book/1'' ''acc://b.acme/book/1''
                [''acc://a.acme/book/1''] ({}, []) 1)
   \<and> normalizeUrl ''acc://b.acme/book/1'' \<in> {''acc://b.acme/book/1''}
   \<and> followDelegationChain cycleLedger 10 ''acc://a.acme/book/1'' ''acc://b.acme/book/1''
        [''acc://a.acme/book/1''] ({''acc://b.acme/book/1''}, []) 1
       = ({''acc://b.acme/book/1''}, [])"
proof -
  have h1: "normalizeUrl ''acc://b.acme/book/1'' \<notin> {} \<and> int 1 \<le> 10" by simp
  have h2: "normalizeUrl ''acc://b.acme/book/1'' \<in> {''acc://b.acme/book/1''}" by code_simp
  from followDelegationChain_terminates
         [of cycleLedger 10 "''acc://a.acme/book/1''" "''acc://b.acme/book/1''"
             "[''acc://a.acme/book/1'']" "{}" "[]" 1] h1
  have a: "normalizeUrl ''acc://b.acme/book/1''
       \<in> fst (followDelegationChain cycleLedger 10 ''acc://a.acme/book/1'' ''acc://b.acme/book/1''
                [''acc://a.acme/book/1''] ({}, []) 1)"
    by blast
  from followDelegationChain_terminates
         [of cycleLedger 10 "''acc://a.acme/book/1''" "''acc://b.acme/book/1''"
             "[''acc://a.acme/book/1'']" "{''acc://b.acme/book/1''}" "[]" 1] h2
  have b: "followDelegationChain cycleLedger 10 ''acc://a.acme/book/1'' ''acc://b.acme/book/1''
        [''acc://a.acme/book/1''] ({''acc://b.acme/book/1''}, []) 1
       = ({''acc://b.acme/book/1''}, [])"
    by blast
  from h1 h2 a b show ?thesis by blast
qed

section \<open>Phase 1 of discovery\<close>














lemma processSigningPaths_single_hop:
  "\<forall>p \<in> set ps. length (hops p) < 2 \<Longrightarrow> processSigningPaths L n ps U st = st"
  unfolding processSigningPaths_def
  by (induction ps arbitrary: st) (simp_all add: phase1Path_def)





section \<open>The inbox after reconciliation\<close>

lemma set_fold_setAdd: "set (fold setAdd xs ys) = set xs \<union> set ys"
  by (induction xs arbitrary: ys) (auto simp: setAdd_def)

lemma keys_deleteDoc: "fst ` set (deleteDoc k docs) = fst ` set docs - {k}"
  by (auto simp: deleteDoc_def image_iff)

lemma keys_setDocMerge: "fst ` set (setDocMerge k d docs) = insert k (fst ` set docs)"
  by (auto simp: setDocMerge_def image_iff split: if_splits) force+

lemma consistent_deleteDoc:
  "docsConsistent docs \<Longrightarrow> docsConsistent (deleteDoc k' docs)"
  by (auto simp: deleteDoc_def docsConsistent_def)

lemma consistent_setDocMerge:
  "docsConsistent docs \<Longrightarrow> docsConsistent (setDocMerge (docId a) a docs)"
  by (auto simp: setDocMerge_def mergeDoc_def docsConsistent_def split: if_splits)

lemma fold_deletes:
  "pendingActions (fold (applyBatchOp u) (map BatchDelete ks) db) u
     = fold deleteDoc ks (pendingActions db u)"
  by (induction ks arbitrary: db) simp_all

lemma fold_deletes_other:
  "available (fold (applyBatchOp u) ops db) = available db"
  by (induction ops arbitrary: db) (simp_all, (case_tac a; simp))

lemma fold_sets:
  "pendingActions (fold (applyBatchOp u) (map (\<lambda>a. BatchSet (docId a) a) as) db) u
     = fold (\<lambda>a. setDocMerge (docId a) a) as (pendingActions db u)"
  by (induction as arbitrary: db) simp_all

lemma keys_fold_deleteDoc: "fst ` set (fold deleteDoc ks docs) = fst ` set docs - set ks"
  by (induction ks arbitrary: docs) (auto simp: keys_deleteDoc)

lemma keys_fold_setDocMerge:
  "fst ` set (fold (\<lambda>a. setDocMerge (docId a) a) as docs) = fst ` set docs \<union> docId ` set as"
  by (induction as arbitrary: docs) (auto simp: keys_setDocMerge)

lemma consistent_fold_deleteDoc:
  "docsConsistent docs \<Longrightarrow> docsConsistent (fold deleteDoc ks docs)"
  by (induction ks arbitrary: docs) (simp_all add: consistent_deleteDoc)

lemma consistent_fold_setDocMerge:
  "docsConsistent docs \<Longrightarrow> docsConsistent (fold (\<lambda>a. setDocMerge (docId a) a) as docs)"
  by (induction as arbitrary: docs) (simp_all add: consistent_setDocMerge)

lemma updatePendingActions_docs:
  assumes "available db"
  shows "\<exists>db'. updatePendingActions db u toAdd toRemove computed = Inr db'
           \<and> pendingActions db' u
               = fold (\<lambda>a. setDocMerge (docId a) a) toAdd (fold deleteDoc toRemove (pendingActions db u))
           \<and> available db'"
  using assms
  by (simp add: updatePendingActions_def commitBatch_def fold_sets fold_deletes fold_deletes_other)

lemma toRemove_keys:
  assumes "docsConsistent docs"
  shows "fst ` set docs - set (map docId (filter (\<lambda>doc. docId doc \<notin> H) (map snd docs)))
           = fst ` set docs \<inter> H"
  using assms by (auto simp: image_iff docsConsistent_def) force+

lemma inbox_ids_lemma:
  assumes "available db" "idsConsistent db u"
  shows "\<exists>res db'. updateUserPendingState False db u discovery now nowMs token = Inr (res, db')
           \<and> inboxIds db' u = (\<lambda>t. normalizeHash (hash (tx t))) ` set (eligibleTransactions discovery)
           \<and> idsConsistent db' u \<and> available db'"
proof -
  define H where "H = (\<lambda>t. normalizeHash (hash (tx t))) ` set (eligibleTransactions discovery)"
  define newHashes where "newHashes = fold setAdd
                            (map (\<lambda>t. normalizeHash (hash (tx t))) (eligibleTransactions discovery)) []"
  define toRemove where "toRemove = map docId (filter (\<lambda>doc. docId doc \<notin> set newHashes)
                                       (map snd (pendingActions db u)))"
  define toAdd where "toAdd = map (\<lambda>eligible.
                             buildPendingActionDocument eligible
                               (case resultSignatures discovery (normalizeHash (hash (tx eligible))) of
                                  Some sigs \<Rightarrow> sigs
                                | None \<Rightarrow> signatures (tx eligible))
                               now)
                        (eligibleTransactions discovery)"
  have nh: "set newHashes = H" by (simp add: newHashes_def set_fold_setAdd H_def)
  have ta: "docId ` set toAdd = H"
    by (auto simp: toAdd_def H_def buildPendingActionDocument_def image_iff)
  have cons: "docsConsistent (pendingActions db u)"
    using assms(2) by (simp add: idsConsistent_def)
  have "\<exists>computed res. updateUserPendingState False db u discovery now nowMs token
     = (case updatePendingActions db u toAdd toRemove computed of
                     Inl e \<Rightarrow> Inl e
                   | Inr db' \<Rightarrow> Inr (res, db'))"
    using assms(1)
    by (simp add: updateUserPendingState_def getPendingActions_def Let_def
        newHashes_def [symmetric] toRemove_def [symmetric] toAdd_def [symmetric])
       (intro exI, rule refl)
  then obtain computed res where e: "updateUserPendingState False db u discovery now nowMs token
     = (case updatePendingActions db u toAdd toRemove computed of
                     Inl e \<Rightarrow> Inl e
                   | Inr db' \<Rightarrow> Inr (res, db'))" by blast
  from updatePendingActions_docs [OF assms(1), of u toAdd toRemove computed]
  obtain db' where d: "updatePendingActions db u toAdd toRemove computed = Inr db'"
    "pendingActions db' u
       = fold (\<lambda>a. setDocMerge (docId a) a) toAdd (fold deleteDoc toRemove (pendingActions db u))"
    "available db'" by blast
  have "inboxIds db' u = (fst ` set (pendingActions db u) - set toRemove) \<union> H"
    by (simp add: inboxIds_def d(2) keys_fold_setDocMerge keys_fold_deleteDoc ta)
  also have "fst ` set (pendingActions db u) - set toRemove = fst ` set (pendingActions db u) \<inter> H"
    unfolding toRemove_def nh using cons by (rule toRemove_keys)
  finally have ids: "inboxIds db' u = H" by auto
  have "idsConsistent db' u" unfolding idsConsistent_def d(2)
    by (intro consistent_fold_setDocMerge consistent_fold_deleteDoc cons)
  with ids d(1,3) e show ?thesis by (auto simp: H_def)
qed

text \<open>
  Claim C3, as the code has it.  The reconciler reads the ID of a stored document from
  the \<open>id\<close> field of its data.  When every document of the user's inbox carries its own
  document ID in that field, as every document written by the reconciler does, a
  non-dry-run update on an available store succeeds, leaves exactly the normalized hashes
  of the eligible transactions as document IDs, and keeps the \<open>id\<close> fields in step.
\<close>

theorem inbox_ids_after_update:
  assumes "available db" and "idsConsistent db u"
  shows "(\<exists>res db'. updateUserPendingState False db u discovery now nowMs token = Inr (res, db'))
         \<and> inboxIds (storeAfter db (updateUserPendingState False db u discovery now nowMs token)) u
             = (\<lambda>t. normalizeHash (hash (tx t))) ` set (eligibleTransactions discovery)
         \<and> idsConsistent (storeAfter db (updateUserPendingState False db u discovery now nowMs token)) u"
proof -
  from inbox_ids_lemma [OF assms, of discovery now nowMs token]
  obtain res db' where
    "updateUserPendingState False db u discovery now nowMs token = Inr (res, db')"
    "inboxIds db' u = (\<lambda>t. normalizeHash (hash (tx t))) ` set (eligibleTransactions discovery)"
    "idsConsistent db' u"
    by blast
  then show ?thesis by (simp add: storeAfter_def)
qed

theorem inbox_ids_after_update_witness:
  "available tidyStore \<and> idsConsistent tidyStore ''u1''
   \<and> inboxIds (storeAfter tidyStore
                  (updateUserPendingState False tidyStore ''u1'' s3Discovery 0 0 ''tok'')) ''u1''
       = (\<lambda>t. normalizeHash (hash (tx t))) ` set (eligibleTransactions s3Discovery)"
proof -
  have h1: "available tidyStore" by (simp add: tidyStore_def strayStore_def)
  have h2: "idsConsistent tidyStore ''u1''"
    by (simp add: idsConsistent_def docsConsistent_def tidyStore_def strayStore_def strayDoc_def)
  from inbox_ids_after_update [OF h1 h2, of s3Discovery 0 0 "''tok''"] h1 h2
  show ?thesis by blast
qed

text \<open>
  Claim C3 as stated fails for a prior inbox that holds a document filed under another
  ID than its \<open>id\<close> field: the reconciler deletes the ID it read from the field, and
  the stray document stays although nothing is eligible.
\<close>

theorem inbox_ids_counterexample:
  "inboxIds (storeAfter strayStore
               (updateUserPendingState False strayStore ''u1'' emptyDiscovery 0 0 ''tok'')) ''u1''
     = {''h9''}
   \<and> (\<lambda>t. normalizeHash (hash (tx t))) ` set (eligibleTransactions emptyDiscovery) = {}"
  by (simp add: inboxIds_def storeAfter_def updateUserPendingState_def getPendingActions_def
      strayStore_def emptyDiscovery_def updatePendingActions_def commitBatch_def Let_def
      strayDoc_def deleteDoc_def)

section \<open>The ticker and overlapping cycles\<close>

lemma startInv_step: "startInv p \<Longrightarrow> startInv (pollerStep ev p)"
  by (cases ev) (auto simp: startInv_def tickEnter_def)

lemma startInv_run: "startInv (pollerRun events)"
proof -
  have "startInv (fold pollerStep events p)" if "startInv p" for p
    using that by (induction events arbitrary: p) (simp_all add: startInv_step)
  moreover have "startInv (startEnter newPoller)"
    by (simp add: startInv_def startEnter_def newPoller_def tickEnter_def)
  ultimately show ?thesis by (simp add: pollerRun_def)
qed

text \<open>
  Claim C4, as the code has it.  The guard of \<open>tick\<close> reads \<open>isRunning\<close>, which
  \<open>start\<close> sets and only \<open>shutdown\<close> clears.  In every state the poller reaches after
  \<open>start\<close>: a tick is skipped if and only if the poller has been shut down; a tick on a
  running poller begins a cycle whatever the number of cycles in flight; and as long as
  \<open>start\<close> waits for the first cycle, the interval is not armed and that cycle is the
  only one in flight.
\<close>

theorem tick_skipped_iff_stopped:
  "(fst (tickEnter (pollerRun events)) = TickSkipped \<longleftrightarrow> \<not> isRunning (pollerRun events))
   \<and> (isRunning (pollerRun events) \<longrightarrow>
        cyclesInFlight (snd (tickEnter (pollerRun events))) = cyclesInFlight (pollerRun events) + 1)
   \<and> (startAwaiting (pollerRun events) \<longrightarrow>
        \<not> pollTimer (pollerRun events) \<and> cyclesInFlight (pollerRun events) = 1)"
  using startInv_run [of events] by (simp add: tickEnter_def startInv_def)

theorem tick_skipped_iff_stopped_witness:
  "isRunning (pollerRun [CycleCompletes, TimerFires])
   \<and> cyclesInFlight (snd (tickEnter (pollerRun [CycleCompletes, TimerFires])))
       = cyclesInFlight (pollerRun [CycleCompletes, TimerFires]) + 1
   \<and> startAwaiting (pollerRun [])
   \<and> \<not> pollTimer (pollerRun []) \<and> cyclesInFlight (pollerRun []) = 1"
proof -
  have h1: "isRunning (pollerRun [CycleCompletes, TimerFires])"
    by (simp add: pollerRun_def startEnter_def newPoller_def tickEnter_def)
  have h2: "startAwaiting (pollerRun [])"
    by (simp add: pollerRun_def startEnter_def newPoller_def tickEnter_def)
  from tick_skipped_iff_stopped [of "[CycleCompletes, TimerFires]"]
       tick_skipped_iff_stopped [of "[]"] h1 h2
  show ?thesis by blast
qed

text \<open>
  Claim C4 as stated fails: after the first cycle has completed and the interval is
  armed, the timer fires and a cycle begins; the timer fires again while that cycle is in
  flight, the tick is not skipped, and two cycles are in flight.
\<close>

theorem tick_overlap_counterexample:
  "cyclesInFlight (pollerRun [CycleCompletes, TimerFires]) = 1
   \<and> fst (tickEnter (pollerRun [CycleCompletes, TimerFires])) = CycleStarted
   \<and> cyclesInFlight (pollerRun [CycleCompletes, TimerFires, TimerFires]) = 2"
  by (simp add: pollerRun_def startEnter_def newPoller_def tickEnter_def)

section \<open>A user's cycle when the ledger is unreachable\<close>

lemma followDelegationChain_unavailable:
  "snd (followDelegationChain ledgerUnavailable md s t cp st d) = snd st"
  by (subst followDelegationChain.simps) (simp add: Let_def ledgerUnavailable_def)

lemma followDelegates_unavailable:
  "paths (followDelegates ledgerUnavailable md page ds e) = paths e"
proof -
  have "snd (fold (\<lambda>delegateUrl st. followDelegationChain ledgerUnavailable md page delegateUrl [page] st 1)
                ds st) = snd st" for st
    by (induction ds arbitrary: st) (simp_all add: followDelegationChain_unavailable)
  then show ?thesis by (simp add: followDelegates_def Let_def)
qed

lemma storedPageStep_unavailable:
  "singleHops (paths e) \<Longrightarrow> singleHops (paths (storedPageStep ledgerUnavailable md kp e))"
  by (simp add: storedPageStep_def Let_def followDelegates_unavailable singleHops_def mkSigningPath_def)

lemma keyBookPageCount_unavailable: "keyBookPageCount ledgerUnavailable u = 0"
  by (simp add: ledgerUnavailable_def queryKeyBookPageCount_def)

lemma liveBookStep_unavailable: "liveBookStep ledgerUnavailable md book acc = acc"
  by (simp add: liveBookStep_def keyBookPageCount_unavailable)

lemma fold_id: "(\<And>x st. f x st = st) \<Longrightarrow> fold f xs st = st"
  by (induction xs) simp_all

lemma discoverSigningPaths_unavailable:
  "singleHops (resultPaths (discoverSigningPaths ledgerUnavailable md adi))"
proof -
  have "singleHops (paths (fold (storedPageStep ledgerUnavailable md) kps e))"
    if "singleHops (paths e)" for kps e
    using that by (induction kps arbitrary: e) (simp_all add: storedPageStep_unavailable)
  moreover have "singleHops (paths \<lparr>paths = [], visited = {}, processedPages = {}\<rparr>)"
    by (simp add: singleHops_def)
  ultimately have "singleHops (paths (fold (storedPageStep ledgerUnavailable md)
      (concat (map bookKeyPages (keyBooks adi))) \<lparr>paths = [], visited = {}, processedPages = {}\<rparr>))"
    by blast
  then show ?thesis
    by (simp add: discoverSigningPaths_def Let_def fold_id [OF liveBookStep_unavailable])
qed

lemma singleHops_concat:
  "(\<And>x. x \<in> set xs \<Longrightarrow> singleHops (f x)) \<Longrightarrow> singleHops (concat (map f xs))"
  by (auto simp: singleHops_def)

lemma processUserAccounts_unavailable:
  "processUserAccounts ledgerUnavailable n user U st = st"
proof -
  have "phase2Adi ledgerUnavailable n U adi st' = st'" for adi st'
    unfolding phase2Adi_def by (rule fold_id) (simp add: ledgerUnavailable_def)
  then show ?thesis unfolding processUserAccounts_def by (rule fold_id)
qed

lemma scanSignatureChains_unavailable:
  "scanSignatureChains ledgerUnavailable user U st = st"
proof -
  have "scanBook ledgerUnavailable U book st' = st'" for book st'
    by (simp add: scanBook_def ledgerUnavailable_def)
  then have "scanAdi ledgerUnavailable U adi st' = st'" for adi st'
    unfolding scanAdi_def Let_def by (rule fold_id)
  then show ?thesis unfolding scanSignatureChains_def by (rule fold_id)
qed

lemma discoverPendingForUser_unavailable:
  "singleHops ps \<Longrightarrow> discoverPendingForUser ledgerUnavailable n user ps = emptyDiscovery"
  by (simp add: discoverPendingForUser_def Let_def processSigningPaths_single_hop singleHops_def
      processUserAccounts_unavailable scanSignatureChains_unavailable emptyDiscovery_def)

lemma processUser_unavailable:
  assumes "adis user \<noteq> []" "available db" "idsConsistent db (uid user)" "\<not> dryRun cfg"
  shows "failedUsers (fst (processUser cfg ledgerUnavailable now nowMs token user (stats, db)))
           = failedUsers stats
         \<and> processedUsers (fst (processUser cfg ledgerUnavailable now nowMs token user (stats, db)))
           = processedUsers stats + 1
         \<and> pendingActions (snd (processUser cfg ledgerUnavailable now nowMs token user (stats, db)))
             (uid user) = []"
proof -
  define allPaths where "allPaths =
     concat (map (\<lambda>adi. resultPaths (discoverSigningPaths ledgerUnavailable (delegationDepth cfg) adi))
                           (adis user))"
  have sh: "singleHops allPaths" unfolding allPaths_def
    by (rule singleHops_concat) (rule discoverSigningPaths_unavailable)
  define db1 where "db1 = db\<lparr>userSigningPaths := (userSigningPaths db)(uid user := map path allPaths)\<rparr>"
  have u1: "updateUserSigningPaths db (uid user) (map path allPaths) = Inr db1"
    using assms(2) by (simp add: updateUserSigningPaths_def db1_def)
  have a1: "available db1" "idsConsistent db1 (uid user)"
    using assms(2,3) by (simp_all add: db1_def idsConsistent_def)
  have d: "discoverPendingForUser ledgerUnavailable (pendingPageSize cfg) user allPaths = emptyDiscovery"
    using sh by (rule discoverPendingForUser_unavailable)
  from inbox_ids_lemma [OF a1, of emptyDiscovery now nowMs token]
  obtain res db2 where r: "updateUserPendingState False db1 (uid user) emptyDiscovery now nowMs token
      = Inr (res, db2)" "inboxIds db2 (uid user) = {}"
    by (auto simp: emptyDiscovery_def)
  have "pendingActions db2 (uid user) = []" using r(2) by (simp add: inboxIds_def)
  then show ?thesis using assms(1,4) u1 d r(1)
    by (simp add: processUser_def Let_def allPaths_def [symmetric] emptyDiscovery_def)
qed

text \<open>
  Claim C5, as the code has it.  When every ledger RPC of a user's cycle fails, no
  client method throws, discovery comes back empty, and \<open>processUser\<close> reconciles
  against it: for a user with at least one identity, an available store and no dry run,
  the user is counted as processed, not as failed, and the inbox documents of the user
  (each filed under its own \<open>id\<close>) are all deleted.
\<close>

theorem unavailable_ledger_reconciles_empty:
  assumes "adis user \<noteq> []" and "available db" and "idsConsistent db (uid user)"
    and "\<not> dryRun cfg"
  shows "failedUsers (fst (processUser cfg ledgerUnavailable now nowMs token user (stats, db)))
           = failedUsers stats
         \<and> processedUsers (fst (processUser cfg ledgerUnavailable now nowMs token user (stats, db)))
           = processedUsers stats + 1
         \<and> pendingActions (snd (processUser cfg ledgerUnavailable now nowMs token user (stats, db)))
             (uid user) = []"
  using assms by (rule processUser_unavailable)

lemma alice_cycle_hypotheses:
  "adis aliceUser \<noteq> [] \<and> available tidyStore \<and> idsConsistent tidyStore (uid aliceUser)
   \<and> \<not> dryRun defaultConfig"
  by (simp add: aliceUser_def tidyStore_def strayStore_def idsConsistent_def docsConsistent_def
      strayDoc_def defaultConfig_def)

theorem unavailable_ledger_reconciles_empty_witness:
  "adis aliceUser \<noteq> [] \<and> available tidyStore \<and> idsConsistent tidyStore (uid aliceUser)
   \<and> \<not> dryRun defaultConfig
   \<and> processedUsers (fst (processUser defaultConfig ledgerUnavailable 0 0 ''tok'' aliceUser
                             (createPollStats, tidyStore)))
       = processedUsers createPollStats + 1
   \<and> pendingActions (snd (processUser defaultConfig ledgerUnavailable 0 0 ''tok'' aliceUser
                             (createPollStats, tidyStore))) (uid aliceUser) = []"
proof -
  note h = alice_cycle_hypotheses
  from h have h1: "adis aliceUser \<noteq> []" and h2: "available tidyStore"
    and h3: "idsConsistent tidyStore (uid aliceUser)" and h4: "\<not> dryRun defaultConfig"
    by blast+
  from unavailable_ledger_reconciles_empty [OF h1 h2 h3 h4, of 0 0 "''tok''" createPollStats] h
  show ?thesis by blast
qed

text \<open>
  Claim C5 as stated fails: with the ledger unreachable, the user of scenario S1 is not
  counted as failed, and the one document of the inbox is gone after the cycle.
\<close>

theorem unavailable_ledger_counterexample:
  "failedUsers (fst (processUser defaultConfig ledgerUnavailable 0 0 ''tok'' aliceUser
                       (createPollStats, tidyStore))) = 0
   \<and> pendingActions (snd (processUser defaultConfig ledgerUnavailable 0 0 ''tok'' aliceUser
                            (createPollStats, tidyStore))) ''u1'' = []
   \<and> pendingActions tidyStore ''u1'' = [(''h7'', strayDoc)]"
proof -
  from alice_cycle_hypotheses have h1: "adis aliceUser \<noteq> []" and h2: "available tidyStore"
    and h3: "idsConsistent tidyStore (uid aliceUser)" and h4: "\<not> dryRun defaultConfig"
    by blast+
  have u: "uid aliceUser = ''u1''" by (simp add: aliceUser_def)
  have f: "failedUsers createPollStats = 0" by (simp add: createPollStats_def)
  have p: "pendingActions tidyStore ''u1'' = [(''h7'', strayDoc)]"
    by (simp add: tidyStore_def)
  from processUser_unavailable [OF h1 h2 h3 h4, of 0 0 "''tok''" createPollStats] u f p
  show ?thesis by simp
qed

end
